theory Spec2Isabelle
  imports Complex_Main "HOL-Library.Monad_Syntax"
begin

section \<open>C integers\<close>

text \<open>
  The loop counters and the length are C \<open>int\<close>s (32 bits, signed). They are modelled
  as mathematical integers; the result of every arithmetic operation of the source is
  checked against the range, and an overflow, which is undefined behaviour in C, is the
  value \<open>None\<close>: the call has no defined result.
\<close>

definition INT_MIN :: int where
  "INT_MIN = - 2147483648"

definition INT_MAX :: int where
  "INT_MAX = 2147483647"

definition int_add :: "int \<Rightarrow> int \<Rightarrow> int option" where
  "int_add x y = (if INT_MIN \<le> x + y \<and> x + y \<le> INT_MAX then Some (x + y) else None)"

definition int_sub :: "int \<Rightarrow> int \<Rightarrow> int option" where
  "int_sub x y = (if INT_MIN \<le> x - y \<and> x - y \<le> INT_MAX then Some (x - y) else None)"

section \<open>The aligned allocator\<close>




section \<open>Memory and registers\<close>

text \<open>
  Memory holds elements of one floating-point type \<open>'a\<close>; an address counts elements,
  so \<open>&a[i]\<close> is \<open>a + i\<close>. Two pointers into the same memory may alias.
  A register is the list of its lanes, lane 0 first.
\<close>

type_synonym 'a heap = "int \<Rightarrow> 'a"

text \<open>
  The floating-point arithmetic of one element type: the addition and the multiplication
  of the hardware (one rounding each) and the value \<open>0.0\<close>. Nothing is assumed about
  them: a packed instruction applies the same operation to every lane as the scalar
  instruction applies to one value.
\<close>

record 'a fpu =
  fadd :: "'a \<Rightarrow> 'a \<Rightarrow> 'a"
  fmul :: "'a \<Rightarrow> 'a \<Rightarrow> 'a"
  fzero :: "'a"

definition loadu :: "nat \<Rightarrow> 'a heap \<Rightarrow> int \<Rightarrow> 'a list" where
  "loadu n h p = map (\<lambda>k. h (p + int k)) [0..<n]"

definition storeu :: "'a heap \<Rightarrow> int \<Rightarrow> 'a list \<Rightarrow> 'a heap" where
  "storeu h p v = (\<lambda>x. if p \<le> x \<and> x < p + int (length v) then v ! nat (x - p) else h x)"

definition lanewise :: "('a \<Rightarrow> 'a \<Rightarrow> 'a) \<Rightarrow> 'a list \<Rightarrow> 'a list \<Rightarrow> 'a list" where
  "lanewise f x y = map2 f x y"

text \<open>
  Single precision: 8 lanes in a ymm register, 4 in an xmm register. The intrinsics are
  those of the compiler; the horizontal addition adds each pair of adjacent lanes, the
  upper lane being the first operand, as in the instruction's description
  (\<open>dst[31:0] := a[63:32] + a[31:0]\<close>).
\<close>

definition mm256_loadu_ps :: "'a heap \<Rightarrow> int \<Rightarrow> 'a list" where
  "mm256_loadu_ps h p = loadu 8 h p"

definition mm256_storeu_ps :: "'a heap \<Rightarrow> int \<Rightarrow> 'a list \<Rightarrow> 'a heap" where
  "mm256_storeu_ps h p v = storeu h p v"

definition mm256_add_ps :: "'a fpu \<Rightarrow> 'a list \<Rightarrow> 'a list \<Rightarrow> 'a list" where
  "mm256_add_ps F x y = lanewise (fadd F) x y"

definition mm256_mul_ps :: "'a fpu \<Rightarrow> 'a list \<Rightarrow> 'a list \<Rightarrow> 'a list" where
  "mm256_mul_ps F x y = lanewise (fmul F) x y"

definition mm_loadu_ps :: "'a heap \<Rightarrow> int \<Rightarrow> 'a list" where
  "mm_loadu_ps h p = loadu 4 h p"

definition mm_storeu_ps :: "'a heap \<Rightarrow> int \<Rightarrow> 'a list \<Rightarrow> 'a heap" where
  "mm_storeu_ps h p v = storeu h p v"

definition mm_add_ps :: "'a fpu \<Rightarrow> 'a list \<Rightarrow> 'a list \<Rightarrow> 'a list" where
  "mm_add_ps F x y = lanewise (fadd F) x y"

definition mm_mul_ps :: "'a fpu \<Rightarrow> 'a list \<Rightarrow> 'a list \<Rightarrow> 'a list" where
  "mm_mul_ps F x y = lanewise (fmul F) x y"

definition mm_setzero_ps :: "'a fpu \<Rightarrow> 'a list" where
  "mm_setzero_ps F = replicate 4 (fzero F)"

definition mm_hadd_ps :: "'a fpu \<Rightarrow> 'a list \<Rightarrow> 'a list \<Rightarrow> 'a list" where
  "mm_hadd_ps F x y =
     [fadd F (x ! 1) (x ! 0), fadd F (x ! 3) (x ! 2), fadd F (y ! 1) (y ! 0), fadd F (y ! 3) (y ! 2)]"

definition mm_store_ss :: "'a list \<Rightarrow> 'a" where
  "mm_store_ss x = x ! 0"

text \<open>Double precision: 4 lanes in a ymm register, 2 in an xmm register.\<close>

definition mm256_loadu_pd :: "'a heap \<Rightarrow> int \<Rightarrow> 'a list" where
  "mm256_loadu_pd h p = loadu 4 h p"

definition mm256_storeu_pd :: "'a heap \<Rightarrow> int \<Rightarrow> 'a list \<Rightarrow> 'a heap" where
  "mm256_storeu_pd h p v = storeu h p v"

definition mm256_add_pd :: "'a fpu \<Rightarrow> 'a list \<Rightarrow> 'a list \<Rightarrow> 'a list" where
  "mm256_add_pd F x y = lanewise (fadd F) x y"

definition mm256_mul_pd :: "'a fpu \<Rightarrow> 'a list \<Rightarrow> 'a list \<Rightarrow> 'a list" where
  "mm256_mul_pd F x y = lanewise (fmul F) x y"

definition mm_loadu_pd :: "'a heap \<Rightarrow> int \<Rightarrow> 'a list" where
  "mm_loadu_pd h p = loadu 2 h p"

definition mm_storeu_pd :: "'a heap \<Rightarrow> int \<Rightarrow> 'a list \<Rightarrow> 'a heap" where
  "mm_storeu_pd h p v = storeu h p v"

definition mm_add_pd :: "'a fpu \<Rightarrow> 'a list \<Rightarrow> 'a list \<Rightarrow> 'a list" where
  "mm_add_pd F x y = lanewise (fadd F) x y"

definition mm_mul_pd :: "'a fpu \<Rightarrow> 'a list \<Rightarrow> 'a list \<Rightarrow> 'a list" where
  "mm_mul_pd F x y = lanewise (fmul F) x y"

definition mm_setzero_pd :: "'a fpu \<Rightarrow> 'a list" where
  "mm_setzero_pd F = replicate 2 (fzero F)"

definition mm_hadd_pd :: "'a fpu \<Rightarrow> 'a list \<Rightarrow> 'a list \<Rightarrow> 'a list" where
  "mm_hadd_pd F x y = [fadd F (x ! 1) (x ! 0), fadd F (y ! 1) (y ! 0)]"

definition mm_store_sd :: "'a list \<Rightarrow> 'a" where
  "mm_store_sd x = x ! 0"

section \<open>Loops\<close>

text \<open>
  \<open>for (; i <= vlen; i += w) body\<close>. The result is the final counter and state.
  With a stride \<open>w \<le> 0\<close> the C loop never leaves \<open>i <= vlen\<close>: it runs forever or
  until \<open>i += w\<close> overflows, so it has no result.
\<close>

function for_le :: "int \<Rightarrow> (int \<Rightarrow> 's \<Rightarrow> 's) \<Rightarrow> int \<Rightarrow> int \<Rightarrow> 's \<Rightarrow> (int \<times> 's) option" where
  "for_le w body vlen i s =
     (if i \<le> vlen then
        (if 0 < w then
           (case int_add i w of
              None \<Rightarrow> None
            | Some i' \<Rightarrow> for_le w body vlen i' (body i s))
         else None)
      else Some (i, s))"
  by pat_completeness auto
termination
  by (relation "measure (\<lambda>(w, body, vlen, i, s). nat (vlen - i + 1))")
     (auto simp: int_add_def split: if_splits)

text \<open>\<open>for (; i < len; i++) body\<close>.\<close>

function for_lt :: "(int \<Rightarrow> 's \<Rightarrow> 's) \<Rightarrow> int \<Rightarrow> int \<Rightarrow> 's \<Rightarrow> (int \<times> 's) option" where
  "for_lt body len i s =
     (if i < len then
        (case int_add i 1 of
           None \<Rightarrow> None
         | Some i' \<Rightarrow> for_lt body len i' (body i s))
      else Some (i, s))"
  by pat_completeness auto
termination
  by (relation "measure (\<lambda>(body, len, i, s). nat (len - i))")
     (auto simp: int_add_def split: if_splits)

declare for_le.simps [simp del] for_lt.simps [simp del]

section \<open>The elementwise kernels\<close>

definition sse_utils_vadds ::
  "'a fpu \<Rightarrow> int \<Rightarrow> int \<Rightarrow> int \<Rightarrow> int \<Rightarrow> 'a heap \<Rightarrow> 'a heap option" where
  "sse_utils_vadds F c a b len h = do {
     vlen \<leftarrow> int_sub len 8;
     (i, h) \<leftarrow> for_le 8 (\<lambda>i h.
        let a_256 = mm256_loadu_ps h (a + i);
            b_256 = mm256_loadu_ps h (b + i);
            c_256 = mm256_add_ps F a_256 b_256
        in mm256_storeu_ps h (c + i) c_256) vlen 0 h;
     vlen \<leftarrow> int_sub len 4;
     (i, h) \<leftarrow> for_le 4 (\<lambda>i h.
        let a_128 = mm_loadu_ps h (a + i);
            b_128 = mm_loadu_ps h (b + i);
            c_128 = mm_add_ps F a_128 b_128
        in mm_storeu_ps h (c + i) c_128) vlen i h;
     (i, h) \<leftarrow> for_lt (\<lambda>i h. h(c + i := fadd F (h (a + i)) (h (b + i)))) len i h;
     Some h
   }"

definition sse_utils_vaddd ::
  "'a fpu \<Rightarrow> int \<Rightarrow> int \<Rightarrow> int \<Rightarrow> int \<Rightarrow> 'a heap \<Rightarrow> 'a heap option" where
  "sse_utils_vaddd F c a b len h = do {
     vlen \<leftarrow> int_sub len 4;
     (i, h) \<leftarrow> for_le 4 (\<lambda>i h.
        let a_256 = mm256_loadu_pd h (a + i);
            b_256 = mm256_loadu_pd h (b + i);
            c_256 = mm256_add_pd F a_256 b_256
        in mm256_storeu_pd h (c + i) c_256) vlen 0 h;
     vlen \<leftarrow> int_sub len 2;
     (i, h) \<leftarrow> for_le 2 (\<lambda>i h.
        let a_128 = mm_loadu_pd h (a + i);
            b_128 = mm_loadu_pd h (b + i);
            c_128 = mm_add_pd F a_128 b_128
        in mm_storeu_pd h (c + i) c_128) vlen i h;
     (i, h) \<leftarrow> for_lt (\<lambda>i h. h(c + i := fadd F (h (a + i)) (h (b + i)))) len i h;
     Some h
   }"

definition sse_utils_vmuls ::
  "'a fpu \<Rightarrow> int \<Rightarrow> int \<Rightarrow> int \<Rightarrow> int \<Rightarrow> 'a heap \<Rightarrow> 'a heap option" where
  "sse_utils_vmuls F c a b len h = do {
     vlen \<leftarrow> int_sub len 8;
     (i, h) \<leftarrow> for_le 8 (\<lambda>i h.
        let a_256 = mm256_loadu_ps h (a + i);
            b_256 = mm256_loadu_ps h (b + i);
            c_256 = mm256_mul_ps F a_256 b_256
        in mm256_storeu_ps h (c + i) c_256) vlen 0 h;
     vlen \<leftarrow> int_sub len 4;
     (i, h) \<leftarrow> for_le 4 (\<lambda>i h.
        let a_128 = mm_loadu_ps h (a + i);
            b_128 = mm_loadu_ps h (b + i);
            c_128 = mm_mul_ps F a_128 b_128
        in mm_storeu_ps h (c + i) c_128) vlen i h;
     (i, h) \<leftarrow> for_lt (\<lambda>i h. h(c + i := fmul F (h (a + i)) (h (b + i)))) len i h;
     Some h
   }"

definition sse_utils_vmuld ::
  "'a fpu \<Rightarrow> int \<Rightarrow> int \<Rightarrow> int \<Rightarrow> int \<Rightarrow> 'a heap \<Rightarrow> 'a heap option" where
  "sse_utils_vmuld F c a b len h = do {
     vlen \<leftarrow> int_sub len 4;
     (i, h) \<leftarrow> for_le 4 (\<lambda>i h.
        let a_256 = mm256_loadu_pd h (a + i);
            b_256 = mm256_loadu_pd h (b + i);
            c_256 = mm256_mul_pd F a_256 b_256
        in mm256_storeu_pd h (c + i) c_256) vlen 0 h;
     vlen \<leftarrow> int_sub len 2;
     (i, h) \<leftarrow> for_le 2 (\<lambda>i h.
        let a_128 = mm_loadu_pd h (a + i);
            b_128 = mm_loadu_pd h (b + i);
            c_128 = mm_mul_pd F a_128 b_128
        in mm_storeu_pd h (c + i) c_128) vlen i h;
     (i, h) \<leftarrow> for_lt (\<lambda>i h. h(c + i := fmul F (h (a + i)) (h (b + i)))) len i h;
     Some h
   }"

section \<open>The sum kernels\<close>

text \<open>
  The sum kernels take their input through a pointer to \<open>const\<close> and store only into
  the local \<open>sum\<close>; they return the sum together with the memory they leave behind.
\<close>

definition sse_utils_sums ::
  "'a fpu \<Rightarrow> int \<Rightarrow> int \<Rightarrow> 'a heap \<Rightarrow> ('a \<times> 'a heap) option" where
  "sse_utils_sums F a len h = do {
     vlen \<leftarrow> int_sub len 4;
     let sum_128 = mm_setzero_ps F;
     (i, sum_128) \<leftarrow> for_le 4 (\<lambda>i sum_128.
        let a_128 = mm_loadu_ps h (a + i)
        in mm_add_ps F sum_128 a_128) vlen 0 sum_128;
     let sum_128 = mm_hadd_ps F sum_128 sum_128;
     let sum_128 = mm_hadd_ps F sum_128 sum_128;
     let sum = mm_store_ss sum_128;
     (i, sum) \<leftarrow> for_lt (\<lambda>i sum. fadd F sum (h (a + i))) len i sum;
     Some (sum, h)
   }"

definition sse_utils_sumd ::
  "'a fpu \<Rightarrow> int \<Rightarrow> int \<Rightarrow> 'a heap \<Rightarrow> ('a \<times> 'a heap) option" where
  "sse_utils_sumd F a len h = do {
     vlen \<leftarrow> int_sub len 2;
     let sum_128 = mm_setzero_pd F;
     (i, sum_128) \<leftarrow> for_le 2 (\<lambda>i sum_128.
        let a_128 = mm_loadu_pd h (a + i)
        in mm_add_pd F sum_128 a_128) vlen 0 sum_128;
     let sum_128 = mm_hadd_pd F sum_128 sum_128;
     let sum = mm_store_sd sum_128;
     (i, sum) \<leftarrow> for_lt (\<lambda>i sum. fadd F sum (h (a + i))) len i sum;
     Some (sum, h)
   }"

section \<open>Auxiliary definitions\<close>

subsection \<open>Loop schedules\<close>

text \<open>The start indices of \<open>k\<close> successive chunks of width \<open>w\<close> from \<open>i\<close>.\<close>

definition chunk_starts :: "int \<Rightarrow> int \<Rightarrow> nat \<Rightarrow> int list" where
  "chunk_starts w i k = map (\<lambda>j. i + w * int j) [0..<k]"

text \<open>How often \<open>for (; i <= vlen; i += w)\<close> runs its body.\<close>

definition trips :: "int \<Rightarrow> int \<Rightarrow> int \<Rightarrow> nat" where
  "trips w vlen i = (if i \<le> vlen then nat ((vlen - i) div w + 1) else 0)"

text \<open>Where the tiers of a kernel with chunk widths \<open>W1\<close> and \<open>W2\<close> end.\<close>

definition wide_end :: "int \<Rightarrow> int \<Rightarrow> int" where
  "wide_end W1 len = W1 * (len div W1)"

definition narrow_end :: "int \<Rightarrow> int \<Rightarrow> int \<Rightarrow> int" where
  "narrow_end W1 W2 len = wide_end W1 len + W2 * ((len - wide_end W1 len) div W2)"

text \<open>The chunks that each tier of a kernel with widths \<open>W1\<close> and \<open>W2\<close> processes.\<close>

definition wide_starts :: "int \<Rightarrow> int \<Rightarrow> int list" where
  "wide_starts W1 len = chunk_starts W1 0 (nat (len div W1))"

definition narrow_starts :: "int \<Rightarrow> int \<Rightarrow> int \<Rightarrow> int list" where
  "narrow_starts W1 W2 len =
     chunk_starts W2 (wide_end W1 len) (nat ((len - wide_end W1 len) div W2))"

definition scalar_starts :: "int \<Rightarrow> int \<Rightarrow> int \<Rightarrow> int list" where
  "scalar_starts W1 W2 len =
     chunk_starts 1 (narrow_end W1 W2 len) (nat (len - narrow_end W1 W2 len))"

text \<open>The indices that chunks of width \<open>w\<close> at the given starts cover, in the order of processing.\<close>

definition chunk_indices :: "int \<Rightarrow> int list \<Rightarrow> int list" where
  "chunk_indices w starts = concat (map (\<lambda>s. [s..s + w - 1]) starts)"

text \<open>
  The tiers in sequence cover \<open>0, 1, \<dots>, len - 1\<close> in this order, each index once; every
  wide and every narrow chunk is full; the wide tier leaves fewer than \<open>W1\<close> elements and
  the narrow tier fewer than \<open>W2\<close>.
\<close>

definition tiers_partition :: "int \<Rightarrow> int \<Rightarrow> int \<Rightarrow> bool" where
  "tiers_partition W1 W2 len =
     (chunk_indices W1 (wide_starts W1 len) @ chunk_indices W2 (narrow_starts W1 W2 len)
        @ chunk_indices 1 (scalar_starts W1 W2 len) = [0..len - 1] \<and>
      (\<forall>s \<in> set (wide_starts W1 len). s + W1 \<le> len) \<and>
      (\<forall>s \<in> set (narrow_starts W1 W2 len). s + W2 \<le> len) \<and>
      len - W1 * int (length (wide_starts W1 len)) < W1 \<and>
      len - (W1 * int (length (wide_starts W1 len)) + W2 * int (length (narrow_starts W1 W2 len))) < W2)"

subsection \<open>The shape of the elementwise kernels\<close>

text \<open>
  The control structure that the four elementwise kernels share: two chunked loops and
  a scalar loop over one counter. Each kernel is an instance (lemmas
  \<open>sse_utils_vadds_tiers\<close> and the like).
\<close>

definition three_tier ::
  "int \<Rightarrow> int \<Rightarrow> (int \<Rightarrow> 's \<Rightarrow> 's) \<Rightarrow> (int \<Rightarrow> 's \<Rightarrow> 's) \<Rightarrow> (int \<Rightarrow> 's \<Rightarrow> 's) \<Rightarrow> int \<Rightarrow> 's \<Rightarrow> 's option" where
  "three_tier W1 W2 wide narrow scalar len s = do {
     vlen \<leftarrow> int_sub len W1;
     (i, s) \<leftarrow> for_le W1 wide vlen 0 s;
     vlen \<leftarrow> int_sub len W2;
     (i, s) \<leftarrow> for_le W2 narrow vlen i s;
     (i, s) \<leftarrow> for_lt scalar len i s;
     Some s
   }"

text \<open>
  What one iteration of a tier does at index \<open>i\<close>: load \<open>w\<close> elements of each input,
  combine them lane by lane, store the \<open>w\<close> results.
\<close>

definition ew_chunk :: "('a \<Rightarrow> 'a \<Rightarrow> 'a) \<Rightarrow> int \<Rightarrow> int \<Rightarrow> int \<Rightarrow> nat \<Rightarrow> int \<Rightarrow> 'a heap \<Rightarrow> 'a heap" where
  "ew_chunk f c a b w i h = storeu h (c + i) (lanewise f (loadu w h (a + i)) (loadu w h (b + i)))"

text \<open>The memory in which the first \<open>j\<close> output elements are computed from \<open>h\<close>.\<close>

definition ew_upto :: "('a \<Rightarrow> 'a \<Rightarrow> 'a) \<Rightarrow> int \<Rightarrow> int \<Rightarrow> int \<Rightarrow> int \<Rightarrow> 'a heap \<Rightarrow> 'a heap" where
  "ew_upto f c a b j h =
     (\<lambda>x. if c \<le> x \<and> x < c + j then f (h (a + (x - c))) (h (b + (x - c))) else h x)"

text \<open>
  An input buffer is not clobbered before it is read when it starts at or after the
  output, or ends before it.
\<close>

definition read_safe :: "int \<Rightarrow> int \<Rightarrow> int \<Rightarrow> bool" where
  "read_safe c p len = (c \<le> p \<or> p + len \<le> c)"

text \<open>
  The buffers of the specification: an input \<open>p\<close> is the output buffer \<open>c\<close> itself, or
  the two do not overlap in their first \<open>len\<close> elements.
\<close>

definition same_or_disjoint :: "int \<Rightarrow> int \<Rightarrow> int \<Rightarrow> bool" where
  "same_or_disjoint c p len = (p = c \<or> p + len \<le> c \<or> c + len \<le> p)"

definition no_overlap :: "int \<Rightarrow> int \<Rightarrow> int \<Rightarrow> bool" where
  "no_overlap c p len = (p + len \<le> c \<or> c + len \<le> p)"

text \<open>\<open>h'\<close> differs from \<open>h\<close> at most in \<open>c[0..len)\<close>; two memories agree on \<open>p[0..len)\<close>.\<close>

definition writes_only :: "int \<Rightarrow> int \<Rightarrow> 'a heap \<Rightarrow> 'a heap \<Rightarrow> bool" where
  "writes_only c len h h' = (\<forall>x. \<not> (c \<le> x \<and> x < c + len) \<longrightarrow> h' x = h x)"

definition agree_on :: "int \<Rightarrow> int \<Rightarrow> 'a heap \<Rightarrow> 'a heap \<Rightarrow> bool" where
  "agree_on p len h1 h2 = (\<forall>x. p \<le> x \<and> x < p + len \<longrightarrow> h1 x = h2 x)"

definition agree3 :: "int \<Rightarrow> int \<Rightarrow> int \<Rightarrow> int \<Rightarrow> int \<Rightarrow> 'a heap \<Rightarrow> 'a heap \<Rightarrow> bool" where
  "agree3 c a b len j h1 h2 = (agree_on a len h1 h2 \<and> agree_on b len h1 h2 \<and> agree_on c j h1 h2)"

subsection \<open>The shape of the sum kernels\<close>

text \<open>
  The control structure that the two sum kernels share: the chunk width \<open>W\<close> and how the
  accumulator register is collapsed into a scalar. Each kernel is an instance (lemmas
  \<open>sse_utils_sums_kernel\<close> and \<open>sse_utils_sumd_kernel\<close>).
\<close>

definition sum_kernel ::
  "nat \<Rightarrow> ('a list \<Rightarrow> 'a) \<Rightarrow> ('a \<Rightarrow> 'a \<Rightarrow> 'a) \<Rightarrow> 'a \<Rightarrow> int \<Rightarrow> int \<Rightarrow> 'a heap \<Rightarrow> ('a \<times> 'a heap) option" where
  "sum_kernel W collapse f z a len h = do {
     vlen \<leftarrow> int_sub len (int W);
     (i, acc) \<leftarrow> for_le (int W) (\<lambda>i acc. lanewise f acc (loadu W h (a + i))) vlen 0 (replicate W z);
     (i, sum) \<leftarrow> for_lt (\<lambda>i sum. f sum (h (a + i))) len i (collapse acc);
     Some (sum, h)
   }"

text \<open>Lane 0 after two horizontal additions of four lanes, and after one of two lanes.\<close>

definition collapse_ps :: "('a \<Rightarrow> 'a \<Rightarrow> 'a) \<Rightarrow> 'a list \<Rightarrow> 'a" where
  "collapse_ps f x = f (f (x ! 3) (x ! 2)) (f (x ! 1) (x ! 0))"

definition collapse_pd :: "('a \<Rightarrow> 'a \<Rightarrow> 'a) \<Rightarrow> 'a list \<Rightarrow> 'a" where
  "collapse_pd f x = f (x ! 1) (x ! 0)"

text \<open>Lane \<open>j\<close> of the accumulator after \<open>k\<close> chunks: the elements \<open>j, j + W, j + 2 W, \<dots>\<close>.\<close>

definition lane_sums :: "nat \<Rightarrow> ('a \<Rightarrow> 'a \<Rightarrow> 'a) \<Rightarrow> 'a \<Rightarrow> int \<Rightarrow> nat \<Rightarrow> 'a heap \<Rightarrow> 'a list" where
  "lane_sums W f z a k h =
     map (\<lambda>j. foldl f z (map (\<lambda>m. h (a + int (W * m + j))) [0..<k])) [0..<W]"

text \<open>
  The sum algorithm in the words of the specification. One pass of the pairwise fold
  combines adjacent lanes, the upper lane first as the hardware does.
\<close>

fun pairwise_fold :: "('a \<Rightarrow> 'a \<Rightarrow> 'a) \<Rightarrow> 'a list \<Rightarrow> 'a list" where
  "pairwise_fold f (x # y # xs) = f y x # pairwise_fold f xs"
| "pairwise_fold f xs = []"

text \<open>The elements left over when no full chunk of \<open>W\<close> elements remains.\<close>

definition spec_rest :: "nat \<Rightarrow> int \<Rightarrow> int \<Rightarrow> 'a heap \<Rightarrow> 'a list" where
  "spec_rest W a len h = map (\<lambda>i. h (a + int i)) [W * (nat len div W)..<nat len]"

text \<open>
  Steps 1 to 5: a zero accumulator of \<open>W\<close> lanes; every full chunk added lane-wise;
  \<open>passes\<close> pairwise folds; the first lane taken as the running sum; the remaining
  elements added one at a time in index order.
\<close>

definition spec_sum :: "nat \<Rightarrow> nat \<Rightarrow> 'a fpu \<Rightarrow> int \<Rightarrow> int \<Rightarrow> 'a heap \<Rightarrow> 'a" where
  "spec_sum W passes F a len h =
     (let chunk = (\<lambda>m. map (\<lambda>j. h (a + int (W * m + j))) [0..<W]);
          acc = fold (\<lambda>m acc. map2 (fadd F) acc (chunk m)) [0..<nat len div W] (replicate W (fzero F));
          folded = (pairwise_fold (fadd F) ^^ passes) acc
      in foldl (fadd F) (hd folded) (spec_rest W a len h))"

text \<open>
  The naive left-to-right accumulation, as the comment above the kernels has it:
  \<open>for (sum = 0, i = 0; i < len; i++) sum += a[i];\<close>
\<close>

definition naive_sum :: "'a fpu \<Rightarrow> int \<Rightarrow> int \<Rightarrow> 'a heap \<Rightarrow> 'a" where
  "naive_sum F a len h = foldl (fadd F) (fzero F) (map (\<lambda>i. h (a + int i)) [0..<nat len])"

subsection \<open>Floating-point arithmetic on the reals\<close>

text \<open>Exact arithmetic on the reals, and the arrays of the specification's example.\<close>

definition exact_fpu :: "real fpu" where
  "exact_fpu = \<lparr>fadd = (+), fmul = (*), fzero = 0\<rparr>"

definition example_mem :: "real heap" where
  "example_mem x =
     (if 0 \<le> x \<and> x < 5 then of_int (x + 1) else if 5 \<le> x \<and> x < 10 then of_int (10 - x) else 0)"

subsection \<open>The system allocator\<close>





subsection \<open>Reading the result of a kernel\<close>

text \<open>The value at address \<open>x\<close> of the memory that a kernel returns.\<close>

definition result_at :: "'a heap option \<Rightarrow> int \<Rightarrow> 'a option" where
  "result_at r x = (case r of None \<Rightarrow> None | Some h \<Rightarrow> Some (h x))"

text \<open>A memory in which every element holds its own address.\<close>

definition index_mem :: "real heap" where
  "index_mem x = of_int x"

subsection \<open>IEEE 754 arithmetic\<close>

text \<open>
  The binary interchange formats of IEEE 754, with round-to-nearest, ties to even. A format has \<open>p\<close> bits of precision (the
  hidden bit included) and exponents from \<open>1 - emax\<close> to \<open>emax\<close>: single precision is
  \<open>p = 24\<close>, \<open>emax = 127\<close>, double precision \<open>p = 53\<close>, \<open>emax = 1023\<close>. A datum is a
  finite real number, the negative zero (\<open>Finite 0\<close> is the positive one), an infinity
  or a NaN (one stands for all).
\<close>

datatype ieee = Finite real | NegZero | PInf | NInf | NaN

definition pow2 :: "int \<Rightarrow> real" where
  "pow2 e = 2 powr (of_int e)"

text \<open>The nearest integer, the even one of two equally near.\<close>

definition round_even :: "real \<Rightarrow> int" where
  "round_even y =
     (let f = \<lfloor>y\<rfloor>; d = y - of_int f
      in if d < 1 / 2 then f else if 1 / 2 < d then f + 1 else if even f then f else f + 1)"

text \<open>
  The unit in the last place of the numbers around \<open>x\<close>: the binary exponent of \<open>x\<close>, not
  below that of the subnormal numbers, less the fraction bits.
\<close>

definition ulp :: "nat \<Rightarrow> int \<Rightarrow> real \<Rightarrow> real" where
  "ulp p emax x = pow2 (max \<lfloor>log 2 \<bar>x\<bar>\<rfloor> (1 - emax) - int p + 1)"

text \<open>Rounding to the nearest number of the format, the exponent not yet bounded above.\<close>

definition round_nearest :: "nat \<Rightarrow> int \<Rightarrow> real \<Rightarrow> real" where
  "round_nearest p emax x =
     (if x = 0 then 0 else of_int (round_even (x / ulp p emax x)) * ulp p emax x)"

text \<open>The largest finite number, \<open>FLT_MAX\<close> and \<open>DBL_MAX\<close>.\<close>

definition max_finite :: "nat \<Rightarrow> int \<Rightarrow> real" where
  "max_finite p emax = (2 ^ p - 1) * pow2 (emax - int p + 1)"

text \<open>
  The result of an operation whose exact value is \<open>x\<close>: an infinity when the rounded value
  exceeds the largest finite number, else the rounded value; \<open>neg\<close> is the sign of a zero
  result.
\<close>

definition ieee_round :: "nat \<Rightarrow> int \<Rightarrow> bool \<Rightarrow> real \<Rightarrow> ieee" where
  "ieee_round p emax neg x =
     (let r = round_nearest p emax x
      in if max_finite p emax < \<bar>r\<bar> then (if 0 < x then PInf else NInf)
         else if r = 0 then (if neg then NegZero else Finite 0)
         else Finite r)"

text \<open>The real value and the sign bit of a datum.\<close>

fun val :: "ieee \<Rightarrow> real" where
  "val (Finite x) = x"
| "val _ = 0"

fun sign_bit :: "ieee \<Rightarrow> bool" where
  "sign_bit (Finite x) = (x < 0)"
| "sign_bit NegZero = True"
| "sign_bit PInf = False"
| "sign_bit NInf = True"
| "sign_bit NaN = False"

fun is_zero :: "ieee \<Rightarrow> bool" where
  "is_zero (Finite x) = (x = 0)"
| "is_zero NegZero = True"
| "is_zero _ = False"

fun is_infinite :: "ieee \<Rightarrow> bool" where
  "is_infinite PInf = True"
| "is_infinite NInf = True"
| "is_infinite _ = False"

text \<open>
  Addition: a NaN operand or infinities of opposite signs give NaN; an infinity otherwise
  gives itself; two negative zeros give the negative zero; an exact sum of zero is the
  positive zero; every other sum is rounded.
\<close>

fun ieee_add :: "nat \<Rightarrow> int \<Rightarrow> ieee \<Rightarrow> ieee \<Rightarrow> ieee" where
  "ieee_add p emax NaN y = NaN"
| "ieee_add p emax x NaN = NaN"
| "ieee_add p emax PInf NInf = NaN"
| "ieee_add p emax NInf PInf = NaN"
| "ieee_add p emax PInf y = PInf"
| "ieee_add p emax x PInf = PInf"
| "ieee_add p emax NInf y = NInf"
| "ieee_add p emax x NInf = NInf"
| "ieee_add p emax NegZero NegZero = NegZero"
| "ieee_add p emax x y = ieee_round p emax (val x + val y < 0) (val x + val y)"

text \<open>
  Multiplication: a NaN operand or zero times infinity give NaN; the sign of every other
  product is the exclusive or of the signs; an infinite operand gives an infinity; every
  other product is rounded.
\<close>

definition ieee_mul :: "nat \<Rightarrow> int \<Rightarrow> ieee \<Rightarrow> ieee \<Rightarrow> ieee" where
  "ieee_mul p emax x y =
     (if x = NaN \<or> y = NaN then NaN
      else if (is_infinite x \<and> is_zero y) \<or> (is_zero x \<and> is_infinite y) then NaN
      else if is_infinite x \<or> is_infinite y then (if sign_bit x \<noteq> sign_bit y then NInf else PInf)
      else if is_zero x \<or> is_zero y then (if sign_bit x \<noteq> sign_bit y then NegZero else Finite 0)
      else ieee_round p emax (sign_bit x \<noteq> sign_bit y) (val x * val y))"

definition ieee_fpu :: "nat \<Rightarrow> int \<Rightarrow> ieee fpu" where
  "ieee_fpu p emax = \<lparr>fadd = ieee_add p emax, fmul = ieee_mul p emax, fzero = Finite 0\<rparr>"

definition binary32 :: "ieee fpu" where
  "binary32 = ieee_fpu 24 127"

definition binary64 :: "ieee fpu" where
  "binary64 = ieee_fpu 53 1023"

text \<open>
  The numbers of a format: \<open>m 2\<^sup>e\<close> with \<open>\<bar>m\<bar> < 2\<^sup>p\<close> and \<open>e\<close> not below the exponent of the
  smallest subnormal number; the finite data are those up to the largest finite number, and
  the negative zero.
\<close>

definition representable :: "nat \<Rightarrow> int \<Rightarrow> real \<Rightarrow> bool" where
  "representable p emax x =
     (\<exists>m e. x = of_int m * pow2 e \<and> \<bar>m\<bar> < 2 ^ p \<and> 2 - emax - int p \<le> e)"

definition finite_float :: "nat \<Rightarrow> int \<Rightarrow> ieee \<Rightarrow> bool" where
  "finite_float p emax v =
     (case v of Finite x \<Rightarrow> representable p emax x \<and> \<bar>x\<bar> \<le> max_finite p emax
      | NegZero \<Rightarrow> True | _ \<Rightarrow> False)"

subsection \<open>Summation errors\<close>

text \<open>
  What the error analysis needs of an arithmetic \<open>F\<close>, with \<open>fin\<close> its finite data and
  \<open>vl\<close> their real values: as long as the exact sum of two finite data is at most \<open>M\<close> in
  magnitude, their computed sum is finite and is a nearest datum to the exact sum, so it
  is off by at most \<open>eps\<close> times the exact sum and by at most either operand.
\<close>

definition nearest_adder :: "'a fpu \<Rightarrow> ('a \<Rightarrow> bool) \<Rightarrow> ('a \<Rightarrow> real) \<Rightarrow> real \<Rightarrow> real \<Rightarrow> bool" where
  "nearest_adder F fin vl eps M =
     (0 \<le> eps \<and> eps \<le> 1 \<and> fin (fzero F) \<and> vl (fzero F) = 0 \<and>
      (\<forall>x y. fin x \<and> fin y \<and> \<bar>vl x + vl y\<bar> \<le> M \<longrightarrow>
         fin (fadd F x y) \<and>
         \<bar>vl (fadd F x y) - (vl x + vl y)\<bar> \<le> eps * \<bar>vl x + vl y\<bar> \<and>
         \<bar>vl (fadd F x y) - (vl x + vl y)\<bar> \<le> \<bar>vl x\<bar> \<and>
         \<bar>vl (fadd F x y) - (vl x + vl y)\<bar> \<le> \<bar>vl y\<bar>))"

text \<open>
  \<open>x\<close> is a finite datum computed with \<open>k\<close> additions from terms whose exact sum is \<open>S\<close> and
  whose magnitudes sum to \<open>A\<close>, and is off by at most \<open>k eps A\<close>.
\<close>

definition summed :: "('a \<Rightarrow> bool) \<Rightarrow> ('a \<Rightarrow> real) \<Rightarrow> real \<Rightarrow> nat \<Rightarrow> 'a \<Rightarrow> real \<Rightarrow> real \<Rightarrow> bool" where
  "summed fin vl eps k x S A = (fin x \<and> \<bar>S\<bar> \<le> A \<and> \<bar>vl x - S\<bar> \<le> real k * eps * A)"

text \<open>The sum of the magnitudes of \<open>a[0..len)\<close>.\<close>

definition magnitude_sum :: "('a \<Rightarrow> real) \<Rightarrow> int \<Rightarrow> int \<Rightarrow> 'a heap \<Rightarrow> real" where
  "magnitude_sum vl a len h = (\<Sum>i<nat len. \<bar>vl (h (a + int i))\<bar>)"

subsection \<open>Data for the sums\<close>

text \<open>
  Single-precision data for the examples: \<open>[-FLT_MAX, 0, FLT_MAX, FLT_MAX]\<close>, whose
  pairwise sum overflows, and \<open>[1, 2\<^sup>-\<^sup>2\<^sup>4, 2\<^sup>-\<^sup>2\<^sup>4, 2\<^sup>-\<^sup>2\<^sup>4, 2\<^sup>-\<^sup>2\<^sup>4]\<close>, whose additions round.
\<close>

definition overflow_mem :: "ieee heap" where
  "overflow_mem x =
     (if x = 0 then Finite (- max_finite 24 127) else if x = 1 then Finite 0
      else Finite (max_finite 24 127))"

definition rounding_mem :: "ieee heap" where
  "rounding_mem x = (if x = 0 then Finite 1 else Finite (1 / 2 ^ 24))"

section \<open>Loop lemmas\<close>

lemma chunk_starts_0 [simp]: "chunk_starts w i 0 = []"
  by (simp add: chunk_starts_def)

lemma chunk_starts_Suc: "chunk_starts w i (Suc k) = i # chunk_starts w (i + w) k"
proof -
  have "[0..<Suc k] = 0 # map Suc [0..<k]"
    by (simp add: upt_conv_Cons map_Suc_upt del: upt_Suc)
  then have "map (\<lambda>j. i + w * int j) [0..<Suc k] = map (\<lambda>j. i + w * int j) (0 # map Suc [0..<k])"
    by (rule arg_cong)
  also have "\<dots> = i # map (\<lambda>j. (i + w) + w * int j) [0..<k]"
    by (simp add: algebra_simps)
  finally show ?thesis by (simp add: chunk_starts_def)
qed

lemma trips_step:
  assumes "0 < w" "i \<le> vlen"
  shows "trips w vlen i = Suc (trips w vlen (i + w))"
proof (cases "i + w \<le> vlen")
  case True
  have "(vlen - i) div w = (vlen - (i + w)) div w + 1"
  proof -
    have "(x + w) div w = x div w + 1" for x using assms(1) by simp
    from this [of "vlen - (i + w)"] show ?thesis by (simp add: algebra_simps)
  qed
  moreover have "0 \<le> (vlen - (i + w)) div w"
    using True assms(1) by (simp add: pos_imp_zdiv_nonneg_iff)
  ultimately show ?thesis
    using True assms by (simp add: trips_def nat_add_distrib)
next
  case False
  then have "vlen - i < w" and "0 \<le> vlen - i" using assms by auto
  then have "(vlen - i) div w = 0" by (simp add: div_pos_pos_trivial)
  then show ?thesis using False assms by (simp add: trips_def)
qed

lemma for_le_fold:
  assumes "0 < w" "vlen + w \<le> INT_MAX" "INT_MIN \<le> i"
  shows "for_le w body vlen i s =
           Some (i + w * int (trips w vlen i), fold body (chunk_starts w i (trips w vlen i)) s)"
  using assms
proof (induction w body vlen i s rule: for_le.induct)
  case (1 w body vlen i s)
  show ?case
  proof (cases "i \<le> vlen")
    case False
    then show ?thesis by (simp add: for_le.simps [of w body vlen i s] trips_def)
  next
    case True
    have ia: "int_add i w = Some (i + w)"
      using True "1.prems" by (simp add: int_add_def)
    have IH: "for_le w body vlen (i + w) (body i s) =
        Some (i + w + w * int (trips w vlen (i + w)),
              fold body (chunk_starts w (i + w) (trips w vlen (i + w))) (body i s))"
      using "1.IH" [OF True _ ia] "1.prems" by simp
    have t: "trips w vlen i = Suc (trips w vlen (i + w))"
      using trips_step [OF "1.prems"(1) True] .
    show ?thesis
      using True "1.prems"(1) ia IH
      by (simp add: for_le.simps [of w body vlen i s] t chunk_starts_Suc algebra_simps)
  qed
qed

lemma for_lt_for_le: "for_lt body len i s = for_le 1 body (len - 1) i s"
proof (induction body len i s rule: for_lt.induct)
  case (1 body len i s)
  show ?case
  proof (cases "i < len")
    case False
    then show ?thesis
      by (simp add: for_lt.simps [of body len i s] for_le.simps [of 1 body "len - 1" i s])
  next
    case True
    show ?thesis
    proof (cases "int_add i 1")
      case None
      then show ?thesis using True
        by (simp add: for_lt.simps [of body len i s] for_le.simps [of 1 body "len - 1" i s])
    next
      case (Some i')
      then show ?thesis using True "1.IH" [OF True Some]
        by (simp add: for_lt.simps [of body len i s] for_le.simps [of 1 body "len - 1" i s])
    qed
  qed
qed

lemma for_lt_fold:
  assumes "len \<le> INT_MAX" "INT_MIN \<le> i"
  shows "for_lt body len i s =
           Some (i + int (trips 1 (len - 1) i), fold body (chunk_starts 1 i (trips 1 (len - 1) i)) s)"
  using for_le_fold [of 1 "len - 1" i body s] assms by (simp add: for_lt_for_le)

lemma ew_chunk_apply:
  "ew_chunk f c a b w i h x =
     (if c + i \<le> x \<and> x < c + i + int w then f (h (a + (x - c))) (h (b + (x - c))) else h x)"
proof (cases "c + i \<le> x \<and> x < c + i + int w")
  case False
  then show ?thesis by (auto simp: ew_chunk_def storeu_def lanewise_def loadu_def)
next
  case True
  then have n: "nat (x - (c + i)) < w" by linarith
  have e: "int (nat (x - (c + i))) = x - (c + i)" using True by simp
  have "a + i + (x - (c + i)) = a + (x - c)" "b + i + (x - (c + i)) = b + (x - c)" by simp_all
  then show ?thesis using True n e
    by (simp add: ew_chunk_def storeu_def lanewise_def loadu_def)
qed

lemma ew_chunk_1: "h(c + i := f (h (a + i)) (h (b + i))) = ew_chunk f c a b 1 i h"
  by (rule ext) (auto simp: ew_chunk_apply)

lemma trips_wide:
  assumes "0 < w" "0 \<le> len"
  shows "trips w (len - w) 0 = nat (len div w)"
proof (cases "w \<le> len")
  case True
  have "(x + w) div w = x div w + 1" for x using assms(1) by simp
  from this [of "len - w"] have "(len - w) div w + 1 = len div w" by simp
  then show ?thesis using True by (simp add: trips_def)
next
  case False
  then have "len div w = 0" using assms by (simp add: div_pos_pos_trivial)
  then show ?thesis using False by (simp add: trips_def)
qed

lemma trips_from:
  assumes "0 < w" "i \<le> len"
  shows "trips w (len - w) i = nat ((len - i) div w)"
proof (cases "i \<le> len - w")
  case True
  have "(x + w) div w = x div w + 1" for x using assms(1) by simp
  from this [of "len - w - i"] have "(len - w - i) div w + 1 = (len - i) div w"
    by (simp add: algebra_simps)
  then show ?thesis using True by (simp add: trips_def)
next
  case False
  then have "(len - i) div w = 0" using assms by (simp add: div_pos_pos_trivial)
  then show ?thesis using False by (simp add: trips_def)
qed

lemma trips_scalar: "trips 1 (len - 1) i = nat (len - i)"
  by (simp add: trips_def)

lemma wide_end_bounds:
  assumes "0 < W1" "0 \<le> len"
  shows "0 \<le> wide_end W1 len" "wide_end W1 len \<le> len" "len - wide_end W1 len < W1"
proof -
  have m: "len = W1 * (len div W1) + len mod W1" by simp
  have "0 \<le> len mod W1" "len mod W1 < W1" using assms(1) by simp_all
  with m show "wide_end W1 len \<le> len" "len - wide_end W1 len < W1"
    unfolding wide_end_def by linarith+
  show "0 \<le> wide_end W1 len"
    unfolding wide_end_def using assms by (simp add: pos_imp_zdiv_nonneg_iff)
qed

lemma narrow_end_bounds:
  assumes "0 < W1" "0 < W2" "0 \<le> len"
  shows "wide_end W1 len \<le> narrow_end W1 W2 len" "narrow_end W1 W2 len \<le> len"
    "len - narrow_end W1 W2 len < W2"
proof -
  let ?r = "len - wide_end W1 len"
  have r: "0 \<le> ?r" using wide_end_bounds [OF assms(1,3)] by simp
  have m: "?r = W2 * (?r div W2) + ?r mod W2" by simp
  have "0 \<le> ?r mod W2" "?r mod W2 < W2" using assms(2) by simp_all
  with m show "narrow_end W1 W2 len \<le> len" "len - narrow_end W1 W2 len < W2"
    unfolding narrow_end_def by linarith+
  have "0 \<le> ?r div W2" using r assms(2) by (simp add: pos_imp_zdiv_nonneg_iff)
  then have "0 \<le> W2 * (?r div W2)" using assms(2) by simp
  then show "wide_end W1 len \<le> narrow_end W1 W2 len" unfolding narrow_end_def by simp
qed

lemma three_tier_schedule:
  assumes "0 \<le> len" "len \<le> INT_MAX" "0 < W2" "W2 \<le> W1" "W1 \<le> 8"
  shows "three_tier W1 W2 wide narrow scalar len s =
    Some (fold scalar (chunk_starts 1 (narrow_end W1 W2 len) (nat (len - narrow_end W1 W2 len)))
         (fold narrow (chunk_starts W2 (wide_end W1 len) (nat ((len - wide_end W1 len) div W2)))
         (fold wide (chunk_starts W1 0 (nat (len div W1))) s)))"
proof -
  have W1: "0 < W1" using assms by simp
  have s1: "int_sub len W1 = Some (len - W1)" "int_sub len W2 = Some (len - W2)"
    using assms by (simp_all add: int_sub_def INT_MIN_def INT_MAX_def)
  have l1: "for_le W1 wide (len - W1) 0 s =
      Some (wide_end W1 len, fold wide (chunk_starts W1 0 (nat (len div W1))) s)"
    using for_le_fold [OF W1, of "len - W1" 0 wide s] assms W1
    by (simp add: trips_wide wide_end_def INT_MIN_def pos_imp_zdiv_nonneg_iff)
  have l2: "for_le W2 narrow (len - W2) (wide_end W1 len) t =
      Some (narrow_end W1 W2 len,
            fold narrow (chunk_starts W2 (wide_end W1 len) (nat ((len - wide_end W1 len) div W2))) t)" for t
    using for_le_fold [OF assms(3), of "len - W2" "wide_end W1 len" narrow t] assms
      wide_end_bounds [OF W1 assms(1)]
    by (simp add: trips_from narrow_end_def INT_MIN_def pos_imp_zdiv_nonneg_iff)
  have l3: "for_lt scalar len (narrow_end W1 W2 len) t =
      Some (len, fold scalar (chunk_starts 1 (narrow_end W1 W2 len) (nat (len - narrow_end W1 W2 len))) t)" for t
    using for_lt_fold [of len "narrow_end W1 W2 len" scalar t] assms
      wide_end_bounds [OF W1 assms(1)] narrow_end_bounds [OF W1 assms(3) assms(1)]
    by (simp add: trips_scalar INT_MIN_def)
  show ?thesis
    by (simp add: three_tier_def s1 l1 l2 l3)
qed

section \<open>The kernels as instances of the three tiers\<close>

lemma sse_utils_vadds_tiers:
  "sse_utils_vadds F c a b len h =
     three_tier 8 4 (ew_chunk (fadd F) c a b 8) (ew_chunk (fadd F) c a b 4)
       (ew_chunk (fadd F) c a b 1) len h"
  by (simp add: sse_utils_vadds_def three_tier_def ew_chunk_1 ew_chunk_def [abs_def]
      mm256_loadu_ps_def mm256_storeu_ps_def mm256_add_ps_def
      mm_loadu_ps_def mm_storeu_ps_def mm_add_ps_def)

lemma sse_utils_vmuls_tiers:
  "sse_utils_vmuls F c a b len h =
     three_tier 8 4 (ew_chunk (fmul F) c a b 8) (ew_chunk (fmul F) c a b 4)
       (ew_chunk (fmul F) c a b 1) len h"
  by (simp add: sse_utils_vmuls_def three_tier_def ew_chunk_1 ew_chunk_def [abs_def]
      mm256_loadu_ps_def mm256_storeu_ps_def mm256_mul_ps_def
      mm_loadu_ps_def mm_storeu_ps_def mm_mul_ps_def)

lemma sse_utils_vaddd_tiers:
  "sse_utils_vaddd F c a b len h =
     three_tier 4 2 (ew_chunk (fadd F) c a b 4) (ew_chunk (fadd F) c a b 2)
       (ew_chunk (fadd F) c a b 1) len h"
  by (simp add: sse_utils_vaddd_def three_tier_def ew_chunk_1 ew_chunk_def [abs_def]
      mm256_loadu_pd_def mm256_storeu_pd_def mm256_add_pd_def
      mm_loadu_pd_def mm_storeu_pd_def mm_add_pd_def)

lemma sse_utils_vmuld_tiers:
  "sse_utils_vmuld F c a b len h =
     three_tier 4 2 (ew_chunk (fmul F) c a b 4) (ew_chunk (fmul F) c a b 2)
       (ew_chunk (fmul F) c a b 1) len h"
  by (simp add: sse_utils_vmuld_def three_tier_def ew_chunk_1 ew_chunk_def [abs_def]
      mm256_loadu_pd_def mm256_storeu_pd_def mm256_mul_pd_def
      mm_loadu_pd_def mm_storeu_pd_def mm_mul_pd_def)

section \<open>The memory after an elementwise kernel\<close>

lemma ew_upto_outside: "\<not> (c \<le> y \<and> y < c + j) \<Longrightarrow> ew_upto f c a b j h y = h y"
  by (auto simp: ew_upto_def)

lemma ew_upto_inside:
  "c \<le> y \<Longrightarrow> y < c + j \<Longrightarrow> ew_upto f c a b j h y = f (h (a + (y - c))) (h (b + (y - c)))"
  by (auto simp: ew_upto_def)

lemma ew_chunk_upto:
  assumes "0 \<le> i" "read_safe c a (i + int w)" "read_safe c b (i + int w)"
  shows "ew_chunk f c a b w i (ew_upto f c a b i h) = ew_upto f c a b (i + int w) h"
proof (rule ext)
  fix x
  show "ew_chunk f c a b w i (ew_upto f c a b i h) x = ew_upto f c a b (i + int w) h x"
  proof (cases "c + i \<le> x \<and> x < c + i + int w")
    case True
    have "\<not> (c \<le> a + (x - c) \<and> a + (x - c) < c + i)"
      using True assms(2) unfolding read_safe_def by linarith
    then have ra: "ew_upto f c a b i h (a + (x - c)) = h (a + (x - c))"
      by (rule ew_upto_outside)
    have "\<not> (c \<le> b + (x - c) \<and> b + (x - c) < c + i)"
      using True assms(3) unfolding read_safe_def by linarith
    then have rb: "ew_upto f c a b i h (b + (x - c)) = h (b + (x - c))"
      by (rule ew_upto_outside)
    have "c \<le> x" "x < c + (i + int w)" using True assms(1) by linarith+
    then have "ew_upto f c a b (i + int w) h x = f (h (a + (x - c))) (h (b + (x - c)))"
      by (rule ew_upto_inside)
    moreover have "ew_chunk f c a b w i (ew_upto f c a b i h) x =
        f (ew_upto f c a b i h (a + (x - c))) (ew_upto f c a b i h (b + (x - c)))"
      using True by (simp only: ew_chunk_apply if_True simp_thms)
    ultimately show ?thesis by (simp only: ra rb)
  next
    case False
    then have "ew_chunk f c a b w i (ew_upto f c a b i h) x = ew_upto f c a b i h x"
      by (simp only: ew_chunk_apply if_False simp_thms)
    also have "\<dots> = ew_upto f c a b (i + int w) h x"
    proof (cases "c \<le> x \<and> x < c + i")
      case True
      then have "c \<le> x" "x < c + i" "x < c + (i + int w)" by linarith+
      then show ?thesis by (simp add: ew_upto_inside)
    next
      case F2: False
      then have "\<not> (c \<le> x \<and> x < c + (i + int w))" using False by linarith
      then show ?thesis using F2 by (simp add: ew_upto_outside)
    qed
    finally show ?thesis .
  qed
qed

lemma read_safe_mono: "read_safe c p n \<Longrightarrow> m \<le> n \<Longrightarrow> read_safe c p m"
  unfolding read_safe_def by linarith

lemma fold_ew_chunk_upto:
  assumes "0 \<le> i" "read_safe c a (i + int w * int k)" "read_safe c b (i + int w * int k)"
  shows "fold (ew_chunk f c a b w) (chunk_starts (int w) i k) (ew_upto f c a b i h) =
           ew_upto f c a b (i + int w * int k) h"
  using assms
proof (induction k arbitrary: i)
  case 0
  then show ?case by simp
next
  case (Suc k)
  have le: "i + int w \<le> i + int w * int (Suc k)"
    by (simp add: algebra_simps)
  have step: "ew_chunk f c a b w i (ew_upto f c a b i h) = ew_upto f c a b (i + int w) h"
    using Suc.prems le by (intro ew_chunk_upto) (auto intro: read_safe_mono)
  have e: "i + int w + int w * int k = i + int w * int (Suc k)"
    by (simp add: algebra_simps)
  have "fold (ew_chunk f c a b w) (chunk_starts (int w) (i + int w) k) (ew_upto f c a b (i + int w) h) =
          ew_upto f c a b (i + int w + int w * int k) h"
    using Suc.prems by (intro Suc.IH) (simp_all add: e)
  then show ?case
    by (simp add: chunk_starts_Suc step e)
qed

lemma ew_upto_0: "ew_upto f c a b 0 h = h"
  by (rule ext) (auto simp: ew_upto_def)

lemma three_tier_ew:
  assumes "0 \<le> len" "len \<le> INT_MAX" "0 < W2" "W2 \<le> W1" "W1 \<le> 8"
    and "read_safe c a len" "read_safe c b len"
  shows "three_tier (int W1) (int W2) (ew_chunk f c a b W1) (ew_chunk f c a b W2) (ew_chunk f c a b 1) len h =
           Some (ew_upto f c a b len h)"
proof -
  let ?W1 = "int W1" and ?W2 = "int W2"
  let ?i1 = "wide_end ?W1 len" and ?i2 = "narrow_end ?W1 ?W2 len"
  have W: "0 < ?W1" "0 < ?W2" using assms by simp_all
  note b1 = wide_end_bounds [OF W(1) assms(1)]
  note b2 = narrow_end_bounds [OF W(1) W(2) assms(1)]
  have k1: "0 \<le> len div ?W1" using assms(1) W by (simp add: pos_imp_zdiv_nonneg_iff)
  have k2: "0 \<le> (len - ?i1) div ?W2" using b1 W by (simp add: pos_imp_zdiv_nonneg_iff)
  have t1: "fold (ew_chunk f c a b W1) (chunk_starts ?W1 0 (nat (len div ?W1))) h = ew_upto f c a b ?i1 h"
    using fold_ew_chunk_upto [of 0 c a W1 "nat (len div ?W1)" b f h] k1 b1 assms(6,7)
    by (simp add: ew_upto_0 wide_end_def read_safe_mono)
  have t2: "fold (ew_chunk f c a b W2) (chunk_starts ?W2 ?i1 (nat ((len - ?i1) div ?W2))) (ew_upto f c a b ?i1 h)
      = ew_upto f c a b ?i2 h"
    using fold_ew_chunk_upto [of ?i1 c a W2 "nat ((len - ?i1) div ?W2)" b f h] k2 b1 b2 assms(6,7)
    by (simp add: narrow_end_def [symmetric] read_safe_mono)
  have t3: "fold (ew_chunk f c a b 1) (chunk_starts 1 ?i2 (nat (len - ?i2))) (ew_upto f c a b ?i2 h)
      = ew_upto f c a b len h"
    using fold_ew_chunk_upto [of ?i2 c a 1 "nat (len - ?i2)" b f h] b1 b2 assms(6,7)
    by simp
  have sch: "three_tier ?W1 ?W2 (ew_chunk f c a b W1) (ew_chunk f c a b W2) (ew_chunk f c a b 1) len h =
    Some (fold (ew_chunk f c a b 1) (chunk_starts 1 ?i2 (nat (len - ?i2)))
         (fold (ew_chunk f c a b W2) (chunk_starts ?W2 ?i1 (nat ((len - ?i1) div ?W2)))
         (fold (ew_chunk f c a b W1) (chunk_starts ?W1 0 (nat (len div ?W1))) h)))"
    by (rule three_tier_schedule) (use assms in simp_all)
  show ?thesis
    by (simp only: sch t1 t2 t3)
qed

section \<open>The sum kernels in closed form\<close>

lemma sse_utils_sums_kernel:
  "sse_utils_sums F a len h = sum_kernel 4 (collapse_ps (fadd F)) (fadd F) (fzero F) a len h"
  by (simp add: sse_utils_sums_def sum_kernel_def collapse_ps_def mm_setzero_ps_def mm_loadu_ps_def
      mm_add_ps_def mm_hadd_ps_def mm_store_ss_def)

lemma sse_utils_sumd_kernel:
  "sse_utils_sumd F a len h = sum_kernel 2 (collapse_pd (fadd F)) (fadd F) (fzero F) a len h"
  by (simp add: sse_utils_sumd_def sum_kernel_def collapse_pd_def mm_setzero_pd_def mm_loadu_pd_def
      mm_add_pd_def mm_hadd_pd_def mm_store_sd_def)

lemma chunk_starts_snoc: "chunk_starts w i (Suc k) = chunk_starts w i k @ [i + w * int k]"
  by (simp add: chunk_starts_def)

lemma fold_accumulate:
  "fold (\<lambda>i acc. lanewise f acc (loadu W h (a + i))) (chunk_starts (int W) 0 k) (replicate W z)
     = lane_sums W f z a k h"
proof (induction k)
  case 0
  show ?case by (simp add: lane_sums_def map_replicate_const)
next
  case (Suc k)
  have "lanewise f (lane_sums W f z a k h) (loadu W h (a + (0 + int W * int k)))
      = lane_sums W f z a (Suc k) h"
    by (simp add: lanewise_def lane_sums_def loadu_def map2_map_map algebra_simps)
  then show ?case
    by (simp add: chunk_starts_snoc Suc)
qed

lemma fold_scalar_foldl:
  "fold (\<lambda>i sum. f sum (h (a + i))) xs s = foldl f s (map (\<lambda>i. h (a + i)) xs)"
  by (induction xs arbitrary: s) simp_all

lemma chunk_starts_1: "0 \<le> i \<Longrightarrow> chunk_starts 1 i r = map int [nat i..<nat i + r]"
proof (induction r)
  case 0
  then show ?case by simp
next
  case (Suc r)
  then show ?case by (simp add: chunk_starts_snoc)
qed

lemma sum_kernel_closed:
  assumes "0 \<le> len" "len \<le> INT_MAX" "0 < W" "W \<le> 8"
  shows "sum_kernel W collapse f z a len h =
           Some (foldl f (collapse (lane_sums W f z a (nat len div W) h))
                   (map (\<lambda>i. h (a + int i)) [W * (nat len div W)..<nat len]), h)"
proof -
  let ?W = "int W" and ?k = "nat len div W"
  have W: "0 < ?W" using assms by simp
  have k: "nat (len div ?W) = ?k" "len div ?W = int ?k"
    using assms(1) by (simp_all add: nat_div_distrib zdiv_int)
  have we: "wide_end ?W len = int (W * ?k)"
    by (simp add: wide_end_def k)
  have le: "W * ?k \<le> nat len" by simp
  have s1: "int_sub len ?W = Some (len - ?W)"
    using assms by (simp add: int_sub_def INT_MIN_def INT_MAX_def)
  have l1: "for_le ?W body (len - ?W) 0 s = Some (int (W * ?k), fold body (chunk_starts ?W 0 ?k) s)"
    for body :: "int \<Rightarrow> 's \<Rightarrow> 's" and s
    using for_le_fold [OF W, of "len - ?W" 0 body s] assms W
    by (simp add: trips_wide k INT_MIN_def)
  have "nat (len - int n) = nat len - n" for n by arith
  then have r: "nat (len - int (W * ?k)) = nat len - W * ?k" .
  have l3: "for_lt body len (int (W * ?k)) s =
      Some (len, fold body (map int [W * ?k..<nat len]) s)" for body :: "int \<Rightarrow> 's \<Rightarrow> 's" and s
    using for_lt_fold [of len "int (W * ?k)" body s] assms(1,2) le
    by (simp add: trips_scalar INT_MIN_def chunk_starts_1 r del: of_nat_mult)
  have "sum_kernel W collapse f z a len h =
      Some (fold (\<lambda>i sum. f sum (h (a + i))) (map int [W * ?k..<nat len])
        (collapse (fold (\<lambda>i acc. lanewise f acc (loadu W h (a + i)))
           (chunk_starts ?W 0 ?k) (replicate W z))), h)"
    by (simp add: sum_kernel_def s1 l1 l3 del: of_nat_mult)
  also have "\<dots> = Some (fold (\<lambda>i sum. f sum (h (a + i))) (map int [W * ?k..<nat len])
        (collapse (lane_sums W f z a ?k h)), h)"
    by (simp only: fold_accumulate)
  finally show ?thesis
    by (simp add: fold_scalar_foldl comp_def)
qed

section \<open>Results of the elementwise kernels\<close>

lemma same_or_disjoint_read_safe: "same_or_disjoint c p len \<Longrightarrow> 0 \<le> len \<Longrightarrow> read_safe c p len"
  unfolding same_or_disjoint_def read_safe_def by linarith

lemma no_overlap_read_safe: "no_overlap c p len \<Longrightarrow> 0 \<le> len \<Longrightarrow> read_safe c p len"
  unfolding no_overlap_def read_safe_def by linarith

lemma kernel32_result:
  assumes "0 \<le> len" "len \<le> INT_MAX" "read_safe c a len" "read_safe c b len"
  shows "three_tier 8 4 (ew_chunk f c a b 8) (ew_chunk f c a b 4) (ew_chunk f c a b 1) len h
           = Some (ew_upto f c a b len h)"
  using three_tier_ew [of len 4 8 c a b f h] assms by simp

lemma kernel64_result:
  assumes "0 \<le> len" "len \<le> INT_MAX" "read_safe c a len" "read_safe c b len"
  shows "three_tier 4 2 (ew_chunk f c a b 4) (ew_chunk f c a b 2) (ew_chunk f c a b 1) len h
           = Some (ew_upto f c a b len h)"
  using three_tier_ew [of len 2 4 c a b f h] assms by simp

lemma ew_upto_at: "0 \<le> i \<Longrightarrow> i < len \<Longrightarrow> ew_upto f c a b len h (c + i) = f (h (a + i)) (h (b + i))"
  by (simp add: ew_upto_def)

section \<open>Memory outside the output buffer\<close>

lemma ew_chunk_frame: "\<not> (c + i \<le> x \<and> x < c + i + int w) \<Longrightarrow> ew_chunk f c a b w i h x = h x"
  by (simp only: ew_chunk_apply if_False simp_thms)

lemma fold_ew_chunk_frame:
  assumes "\<forall>s \<in> set starts. 0 \<le> s \<and> s + int w \<le> len" "\<not> (c \<le> x \<and> x < c + len)"
  shows "fold (ew_chunk f c a b w) starts h x = h x"
  using assms(1)
proof (induction starts arbitrary: h)
  case Nil
  show ?case by simp
next
  case (Cons s starts)
  have "\<not> (c + s \<le> x \<and> x < c + s + int w)"
    using Cons.prems assms(2) by auto
  then have "ew_chunk f c a b w s h x = h x" by (rule ew_chunk_frame)
  moreover have "fold (ew_chunk f c a b w) starts (ew_chunk f c a b w s h) x = ew_chunk f c a b w s h x"
    using Cons.prems by (intro Cons.IH) simp
  ultimately show ?case by simp
qed

lemma chunk_starts_mem:
  assumes "s \<in> set (chunk_starts w i k)" "0 \<le> w"
  shows "i \<le> s \<and> s + w \<le> i + w * int k"
proof -
  from assms(1) obtain j where j: "j < k" "s = i + w * int j"
    by (auto simp: chunk_starts_def)
  have "w * int j \<le> w * int k" "w * (int j + 1) \<le> w * int k"
    using j(1) assms(2) by (auto intro!: mult_left_mono)
  moreover have "0 \<le> w * int j" using assms(2) by simp
  ultimately show ?thesis using j(2) by (simp add: algebra_simps)
qed

lemma three_tier_frame:
  assumes "0 \<le> len" "len \<le> INT_MAX" "0 < W2" "W2 \<le> W1" "W1 \<le> 8"
    and "\<not> (c \<le> x \<and> x < c + len)"
  shows "\<exists>h'. three_tier (int W1) (int W2) (ew_chunk f c a b W1) (ew_chunk f c a b W2) (ew_chunk f c a b 1) len h
            = Some h' \<and> h' x = h x"
proof -
  let ?W1 = "int W1" and ?W2 = "int W2"
  let ?i1 = "wide_end ?W1 len" and ?i2 = "narrow_end ?W1 ?W2 len"
  have W: "0 < ?W1" "0 < ?W2" using assms by simp_all
  note b1 = wide_end_bounds [OF W(1) assms(1)]
  note b2 = narrow_end_bounds [OF W(1) W(2) assms(1)]
  have k1: "0 \<le> len div ?W1" using assms(1) W by (simp add: pos_imp_zdiv_nonneg_iff)
  have k2: "0 \<le> (len - ?i1) div ?W2" using b1 W by (simp add: pos_imp_zdiv_nonneg_iff)
  have m1: "\<forall>s \<in> set (chunk_starts ?W1 0 (nat (len div ?W1))). 0 \<le> s \<and> s + int W1 \<le> len"
  proof
    fix s assume "s \<in> set (chunk_starts ?W1 0 (nat (len div ?W1)))"
    from chunk_starts_mem [OF this] k1 b1 show "0 \<le> s \<and> s + int W1 \<le> len"
      by (simp add: wide_end_def)
  qed
  have m2: "\<forall>s \<in> set (chunk_starts ?W2 ?i1 (nat ((len - ?i1) div ?W2))). 0 \<le> s \<and> s + int W2 \<le> len"
  proof
    fix s assume "s \<in> set (chunk_starts ?W2 ?i1 (nat ((len - ?i1) div ?W2)))"
    from chunk_starts_mem [OF this] k2 b1 b2 show "0 \<le> s \<and> s + int W2 \<le> len"
      by (simp add: narrow_end_def)
  qed
  have m3: "\<forall>s \<in> set (chunk_starts 1 ?i2 (nat (len - ?i2))). 0 \<le> s \<and> s + int 1 \<le> len"
  proof
    fix s assume "s \<in> set (chunk_starts 1 ?i2 (nat (len - ?i2)))"
    from chunk_starts_mem [OF this] b1 b2 show "0 \<le> s \<and> s + int 1 \<le> len"
      by simp
  qed
  have sch: "three_tier ?W1 ?W2 (ew_chunk f c a b W1) (ew_chunk f c a b W2) (ew_chunk f c a b 1) len h =
    Some (fold (ew_chunk f c a b 1) (chunk_starts 1 ?i2 (nat (len - ?i2)))
         (fold (ew_chunk f c a b W2) (chunk_starts ?W2 ?i1 (nat ((len - ?i1) div ?W2)))
         (fold (ew_chunk f c a b W1) (chunk_starts ?W1 0 (nat (len div ?W1))) h)))"
    by (rule three_tier_schedule) (use assms in simp_all)
  show ?thesis
    by (simp only: sch fold_ew_chunk_frame [OF m1 assms(6)] fold_ew_chunk_frame [OF m2 assms(6)]
        fold_ew_chunk_frame [OF m3 assms(6)] option.inject simp_thms ex_simps)
qed

section \<open>Negative lengths\<close>

lemma three_tier_negative:
  assumes "len < 0" "INT_MIN + W1 \<le> len" "0 < W2" "W2 \<le> W1" "W1 \<le> 8"
  shows "three_tier W1 W2 wide narrow scalar len s = Some s"
proof -
  have s1: "int_sub len W1 = Some (len - W1)" "int_sub len W2 = Some (len - W2)"
    using assms by (simp_all add: int_sub_def INT_MIN_def INT_MAX_def)
  have "for_le W1 wide (len - W1) 0 s = Some (0, s)"
    using assms by (simp add: for_le.simps [of W1 wide "len - W1" 0 s])
  moreover have "for_le W2 narrow (len - W2) 0 s = Some (0, s)"
    using assms by (simp add: for_le.simps [of W2 narrow "len - W2" 0 s])
  moreover have "for_lt scalar len 0 s = Some (0, s)"
    using assms by (simp add: for_lt.simps [of scalar len 0 s])
  ultimately show ?thesis by (simp add: three_tier_def s1)
qed

lemma three_tier_overflow:
  assumes "len < INT_MIN + W1"
  shows "three_tier W1 W2 wide narrow scalar len s = None"
  using assms by (simp add: three_tier_def int_sub_def)

lemma sum_kernel_negative:
  assumes "len < 0" "INT_MIN + int W \<le> len" "0 < W" "W \<le> 8"
  shows "sum_kernel W collapse f z a len h = Some (collapse (replicate W z), h)"
proof -
  have s1: "int_sub len (int W) = Some (len - int W)"
    using assms by (simp add: int_sub_def INT_MIN_def INT_MAX_def)
  have "for_le (int W) body (len - int W) 0 s = Some (0, s)" for body :: "int \<Rightarrow> 'a list \<Rightarrow> 'a list" and s
    using assms by (simp add: for_le.simps [of "int W" body "len - int W" 0 s])
  moreover have "for_lt body len 0 s = Some (0, s)" for body :: "int \<Rightarrow> 'a \<Rightarrow> 'a" and s
    using assms by (simp add: for_lt.simps [of body len 0 s])
  ultimately show ?thesis by (simp add: sum_kernel_def s1)
qed

lemma sum_kernel_overflow:
  assumes "len < INT_MIN + int W"
  shows "sum_kernel W collapse f z a len h = None"
  using assms by (simp add: sum_kernel_def int_sub_def)

lemma collapse_ps_zero: "f z z = z \<Longrightarrow> collapse_ps f (replicate 4 z) = z"
  by (simp add: collapse_ps_def)

lemma collapse_pd_zero: "f z z = z \<Longrightarrow> collapse_pd f (replicate 2 z) = z"
  by (simp add: collapse_pd_def)

section \<open>Results of the kernels by name\<close>

lemma lane_sums_0: "lane_sums W f z a 0 h = replicate W z"
  by (simp add: lane_sums_def map_replicate_const)

lemma sse_utils_vadds_result:
  assumes "0 \<le> len" "len \<le> INT_MAX" "read_safe c a len" "read_safe c b len"
  shows "sse_utils_vadds F c a b len h = Some (ew_upto (fadd F) c a b len h)"
  unfolding sse_utils_vadds_tiers using assms by (rule kernel32_result)

lemma sse_utils_vmuls_result:
  assumes "0 \<le> len" "len \<le> INT_MAX" "read_safe c a len" "read_safe c b len"
  shows "sse_utils_vmuls F c a b len h = Some (ew_upto (fmul F) c a b len h)"
  unfolding sse_utils_vmuls_tiers using assms by (rule kernel32_result)

lemma sse_utils_vaddd_result:
  assumes "0 \<le> len" "len \<le> INT_MAX" "read_safe c a len" "read_safe c b len"
  shows "sse_utils_vaddd F c a b len h = Some (ew_upto (fadd F) c a b len h)"
  unfolding sse_utils_vaddd_tiers using assms by (rule kernel64_result)

lemma sse_utils_vmuld_result:
  assumes "0 \<le> len" "len \<le> INT_MAX" "read_safe c a len" "read_safe c b len"
  shows "sse_utils_vmuld F c a b len h = Some (ew_upto (fmul F) c a b len h)"
  unfolding sse_utils_vmuld_tiers using assms by (rule kernel64_result)

lemmas elementwise_results =
  sse_utils_vadds_result sse_utils_vaddd_result sse_utils_vmuls_result sse_utils_vmuld_result

section \<open>What a kernel reads\<close>

lemma ew_chunk_eq:
  assumes "\<forall>t. i \<le> t \<and> t < i + int w \<longrightarrow> h1 (a + t) = h2 (a + t) \<and> h1 (b + t) = h2 (b + t)"
    and "h1 x = h2 x \<or> (c + i \<le> x \<and> x < c + i + int w)"
  shows "ew_chunk f c a b w i h1 x = ew_chunk f c a b w i h2 x"
proof (cases "c + i \<le> x \<and> x < c + i + int w")
  case True
  then have "i \<le> x - c \<and> x - c < i + int w" by linarith
  with assms(1) have "h1 (a + (x - c)) = h2 (a + (x - c))" "h1 (b + (x - c)) = h2 (b + (x - c))"
    by blast+
  then show ?thesis using True by (simp only: ew_chunk_apply if_True simp_thms)
next
  case False
  then show ?thesis using assms(2) by (simp only: ew_chunk_apply if_False simp_thms)
qed

lemma ew_chunk_agree3:
  assumes "agree3 c a b len i h1 h2" "0 \<le> i" "i + int w \<le> len"
  shows "agree3 c a b len (i + int w) (ew_chunk f c a b w i h1) (ew_chunk f c a b w i h2)"
proof -
  have reads: "\<forall>t. i \<le> t \<and> t < i + int w \<longrightarrow> h1 (a + t) = h2 (a + t) \<and> h1 (b + t) = h2 (b + t)"
    using assms unfolding agree3_def agree_on_def by auto
  have "agree_on a len (ew_chunk f c a b w i h1) (ew_chunk f c a b w i h2)"
    unfolding agree_on_def
  proof (intro allI impI)
    fix x assume "a \<le> x \<and> x < a + len"
    then have "h1 x = h2 x" using assms(1) unfolding agree3_def agree_on_def by blast
    then show "ew_chunk f c a b w i h1 x = ew_chunk f c a b w i h2 x"
      by (intro ew_chunk_eq [OF reads]) simp
  qed
  moreover have "agree_on b len (ew_chunk f c a b w i h1) (ew_chunk f c a b w i h2)"
    unfolding agree_on_def
  proof (intro allI impI)
    fix x assume "b \<le> x \<and> x < b + len"
    then have "h1 x = h2 x" using assms(1) unfolding agree3_def agree_on_def by blast
    then show "ew_chunk f c a b w i h1 x = ew_chunk f c a b w i h2 x"
      by (intro ew_chunk_eq [OF reads]) simp
  qed
  moreover have "agree_on c (i + int w) (ew_chunk f c a b w i h1) (ew_chunk f c a b w i h2)"
    unfolding agree_on_def
  proof (intro allI impI)
    fix x assume x: "c \<le> x \<and> x < c + (i + int w)"
    have "h1 x = h2 x \<or> (c + i \<le> x \<and> x < c + i + int w)"
    proof (cases "x < c + i")
      case True
      then have "h1 x = h2 x" using x assms(1) unfolding agree3_def agree_on_def by blast
      then show ?thesis by simp
    next
      case False
      then show ?thesis using x by simp
    qed
    then show "ew_chunk f c a b w i h1 x = ew_chunk f c a b w i h2 x"
      by (rule ew_chunk_eq [OF reads])
  qed
  ultimately show ?thesis unfolding agree3_def by simp
qed

lemma fold_ew_chunk_agree3:
  assumes "agree3 c a b len i h1 h2" "0 \<le> i" "i + int w * int k \<le> len"
  shows "agree3 c a b len (i + int w * int k)
           (fold (ew_chunk f c a b w) (chunk_starts (int w) i k) h1)
           (fold (ew_chunk f c a b w) (chunk_starts (int w) i k) h2)"
  using assms
proof (induction k arbitrary: i h1 h2)
  case 0
  then show ?case by simp
next
  case (Suc k)
  have e: "i + int w + int w * int k = i + int w * int (Suc k)"
    by (simp add: algebra_simps)
  have le: "i + int w \<le> len"
  proof -
    have "0 \<le> int w * int k" by simp
    then show ?thesis using Suc.prems(3) e by linarith
  qed
  have step: "agree3 c a b len (i + int w) (ew_chunk f c a b w i h1) (ew_chunk f c a b w i h2)"
    using Suc.prems(1,2) le by (rule ew_chunk_agree3)
  have "agree3 c a b len (i + int w + int w * int k)
           (fold (ew_chunk f c a b w) (chunk_starts (int w) (i + int w) k) (ew_chunk f c a b w i h1))
           (fold (ew_chunk f c a b w) (chunk_starts (int w) (i + int w) k) (ew_chunk f c a b w i h2))"
    using step Suc.prems(2,3) by (intro Suc.IH) (simp_all add: e)
  then show ?case
    by (simp only: chunk_starts_Suc fold_simps e)
qed

lemma three_tier_agree:
  assumes "0 \<le> len" "len \<le> INT_MAX" "0 < W2" "W2 \<le> W1" "W1 \<le> 8"
    and "agree_on a len h1 h2" "agree_on b len h1 h2"
  shows "\<exists>h1' h2'.
      three_tier (int W1) (int W2) (ew_chunk f c a b W1) (ew_chunk f c a b W2) (ew_chunk f c a b 1) len h1 = Some h1' \<and>
      three_tier (int W1) (int W2) (ew_chunk f c a b W1) (ew_chunk f c a b W2) (ew_chunk f c a b 1) len h2 = Some h2' \<and>
      agree_on c len h1' h2'"
proof -
  let ?W1 = "int W1" and ?W2 = "int W2"
  let ?i1 = "wide_end ?W1 len" and ?i2 = "narrow_end ?W1 ?W2 len"
  let ?k1 = "nat (len div ?W1)" and ?k2 = "nat ((len - ?i1) div ?W2)" and ?k3 = "nat (len - ?i2)"
  let ?t1 = "fold (ew_chunk f c a b W1) (chunk_starts ?W1 0 ?k1)"
  let ?t2 = "fold (ew_chunk f c a b W2) (chunk_starts ?W2 ?i1 ?k2)"
  let ?t3 = "fold (ew_chunk f c a b 1) (chunk_starts (int 1) ?i2 ?k3)"
  have W: "0 < ?W1" "0 < ?W2" using assms by simp_all
  note b1 = wide_end_bounds [OF W(1) assms(1)]
  note b2 = narrow_end_bounds [OF W(1) W(2) assms(1)]
  have k1: "0 \<le> len div ?W1" using assms(1) W by (simp add: pos_imp_zdiv_nonneg_iff)
  have k2: "0 \<le> (len - ?i1) div ?W2" using b1 W by (simp add: pos_imp_zdiv_nonneg_iff)
  have e1: "0 + ?W1 * int ?k1 = ?i1" using k1 by (simp add: wide_end_def)
  have e2: "?i1 + ?W2 * int ?k2 = ?i2" using k2 by (simp add: narrow_end_def)
  have e3: "?i2 + int 1 * int ?k3 = len" using b2 by simp
  have a0: "agree3 c a b len 0 h1 h2"
    using assms(6,7) by (simp add: agree3_def agree_on_def)
  have a1: "agree3 c a b len ?i1 (?t1 h1) (?t1 h2)"
    using fold_ew_chunk_agree3 [OF a0, of W1 ?k1 f] b1 by (simp only: e1)
  have a2: "agree3 c a b len ?i2 (?t2 (?t1 h1)) (?t2 (?t1 h2))"
    using fold_ew_chunk_agree3 [OF a1 b1(1), of W2 ?k2 f] b2 by (simp only: e2)
  have a3: "agree3 c a b len len (?t3 (?t2 (?t1 h1))) (?t3 (?t2 (?t1 h2)))"
  proof -
    have "0 \<le> ?i2" using b1 b2 by linarith
    from fold_ew_chunk_agree3 [OF a2 this, of 1 ?k3 f] show ?thesis
      by (simp only: e3)
  qed
  have sch: "three_tier ?W1 ?W2 (ew_chunk f c a b W1) (ew_chunk f c a b W2) (ew_chunk f c a b 1) len h =
    Some (?t3 (?t2 (?t1 h)))" for h
    using three_tier_schedule [of len ?W2 ?W1 "ew_chunk f c a b W1" "ew_chunk f c a b W2" "ew_chunk f c a b 1" h]
      assms(1-5) by simp
  show ?thesis
    using a3 by (simp only: sch agree3_def) blast
qed

lemma three_tier_writes_only:
  assumes "0 \<le> len" "len \<le> INT_MAX" "0 < W2" "W2 \<le> W1" "W1 \<le> 8"
  shows "\<exists>h'. three_tier (int W1) (int W2) (ew_chunk f c a b W1) (ew_chunk f c a b W2) (ew_chunk f c a b 1) len h
            = Some h' \<and> writes_only c len h h'"
proof -
  have "0 < int W2" "int W2 \<le> int W1" "int W1 \<le> 8" using assms by simp_all
  then obtain h' where h': "three_tier (int W1) (int W2) (ew_chunk f c a b W1) (ew_chunk f c a b W2)
      (ew_chunk f c a b 1) len h = Some h'"
    by (simp add: three_tier_schedule [OF assms(1,2)])
  have "h' x = h x" if "\<not> (c \<le> x \<and> x < c + len)" for x
    using three_tier_frame [OF assms that, of f a b h] h' by simp
  then show ?thesis using h' unfolding writes_only_def by blast
qed

lemma sum_kernel_agree:
  assumes "0 \<le> len" "len \<le> INT_MAX" "0 < W" "W \<le> 8" "agree_on a len h1 h2"
  shows "\<exists>v. sum_kernel W collapse f z a len h1 = Some (v, h1) \<and>
             sum_kernel W collapse f z a len h2 = Some (v, h2)"
proof -
  let ?k = "nat len div W"
  have le: "W * ?k \<le> nat len" by simp
  have eq: "h1 (a + int n) = h2 (a + int n)" if "n < nat len" for n
    using assms(5) that unfolding agree_on_def by (simp add: zless_nat_eq_int_zless)
  have "lane_sums W f z a ?k h1 = lane_sums W f z a ?k h2"
    unfolding lane_sums_def
  proof (intro map_cong refl arg_cong [where f = "foldl f z"])
    fix j m assume "j \<in> set [0..<W]" "m \<in> set [0..<?k]"
    then have "j < W" "Suc m \<le> ?k" by simp_all
    then have "W * m + j < W * Suc m" "W * Suc m \<le> W * ?k"
      by (simp, intro mult_le_mono2)
    with le have "W * m + j < nat len" by linarith
    then show "h1 (a + int (W * m + j)) = h2 (a + int (W * m + j))" by (rule eq)
  qed
  moreover have "map (\<lambda>i. h1 (a + int i)) [W * ?k..<nat len] = map (\<lambda>i. h2 (a + int i)) [W * ?k..<nat len]"
    by (intro map_cong refl eq) simp
  ultimately show ?thesis
    by (simp only: sum_kernel_closed [OF assms(1-4)]) blast
qed

section \<open>The partition of the index range\<close>

lemma upto_append: "i \<le> j \<Longrightarrow> j \<le> k + 1 \<Longrightarrow> [i..j - 1] @ [j..k] = [i..k]"
proof (cases "j \<le> k")
  case True
  assume "i \<le> j"
  then show ?thesis using True by (simp add: upto_split1 [of i j k])
next
  case False
  assume "j \<le> k + 1"
  with False have "j = k + 1" by simp
  then show ?thesis by simp
qed

lemma chunk_indices_starts:
  assumes "0 < w"
  shows "chunk_indices w (chunk_starts w i k) = [i..i + w * int k - 1]"
proof (induction k)
  case 0
  show ?case by (simp add: chunk_indices_def)
next
  case (Suc k)
  have e: "i + w * int (Suc k) = i + w * int k + w" by (simp add: algebra_simps)
  have "0 \<le> w * int k" using assms by simp
  then have ap: "[i..i + w * int k - 1] @ [i + w * int k..i + w * int k + w - 1] = [i..i + w * int k + w - 1]"
    using assms by (intro upto_append) simp_all
  have "chunk_indices w (chunk_starts w i (Suc k)) =
      chunk_indices w (chunk_starts w i k) @ [i + w * int k..i + w * int k + w - 1]"
    by (simp add: chunk_indices_def chunk_starts_snoc)
  then show ?case
    by (simp only: Suc e ap)
qed

lemma length_chunk_starts [simp]: "length (chunk_starts w i k) = k"
  by (simp add: chunk_starts_def)

lemma tiers_partition_holds:
  assumes "0 \<le> len" "0 < W2" "0 < W1"
  shows "tiers_partition W1 W2 len"
proof -
  let ?i1 = "wide_end W1 len" and ?i2 = "narrow_end W1 W2 len"
  note b1 = wide_end_bounds [OF assms(3,1)]
  note b2 = narrow_end_bounds [OF assms(3,2,1)]
  have k1: "0 \<le> len div W1" using assms by (simp add: pos_imp_zdiv_nonneg_iff)
  have k2: "0 \<le> (len - ?i1) div W2" using b1 assms by (simp add: pos_imp_zdiv_nonneg_iff)
  have e1: "0 + W1 * int (nat (len div W1)) = ?i1" using k1 by (simp add: wide_end_def)
  have e2: "?i1 + W2 * int (nat ((len - ?i1) div W2)) = ?i2" using k2 by (simp add: narrow_end_def)
  have e3: "?i2 + 1 * int (nat (len - ?i2)) = len" using b2 by simp
  have c1: "chunk_indices W1 (wide_starts W1 len) = [0..?i1 - 1]"
    unfolding wide_starts_def chunk_indices_starts [OF assms(3)] e1 ..
  have c2: "chunk_indices W2 (narrow_starts W1 W2 len) = [?i1..?i2 - 1]"
    unfolding narrow_starts_def chunk_indices_starts [OF assms(2)] e2 ..
  have c3: "chunk_indices 1 (scalar_starts W1 W2 len) = [?i2..len - 1]"
    unfolding scalar_starts_def chunk_indices_starts [OF zero_less_one] e3 ..
  have "[?i1..?i2 - 1] @ [?i2..len - 1] = [?i1..len - 1]"
    using b2 by (intro upto_append) simp_all
  moreover have "[0..?i1 - 1] @ [?i1..len - 1] = [0..len - 1]"
    using b1 by (intro upto_append) simp_all
  ultimately have cover: "chunk_indices W1 (wide_starts W1 len) @ chunk_indices W2 (narrow_starts W1 W2 len)
        @ chunk_indices 1 (scalar_starts W1 W2 len) = [0..len - 1]"
    by (simp only: c1 c2 c3)
  have m1: "\<forall>s \<in> set (wide_starts W1 len). s + W1 \<le> len"
  proof
    fix s assume "s \<in> set (wide_starts W1 len)"
    then have "s \<in> set (chunk_starts W1 0 (nat (len div W1)))" by (simp only: wide_starts_def)
    from chunk_starts_mem [OF this] assms(3) b1 show "s + W1 \<le> len" by (simp only: e1) simp
  qed
  have m2: "\<forall>s \<in> set (narrow_starts W1 W2 len). s + W2 \<le> len"
  proof
    fix s assume "s \<in> set (narrow_starts W1 W2 len)"
    then have "s \<in> set (chunk_starts W2 ?i1 (nat ((len - ?i1) div W2)))" by (simp only: narrow_starts_def)
    from chunk_starts_mem [OF this] assms(2) b2 show "s + W2 \<le> len" by (simp only: e2) simp
  qed
  have r1: "len - W1 * int (length (wide_starts W1 len)) < W1"
    using b1(3) e1 by (simp add: wide_starts_def)
  have r2: "len - (W1 * int (length (wide_starts W1 len)) + W2 * int (length (narrow_starts W1 W2 len))) < W2"
    using b2(3) e1 e2 by (simp add: wide_starts_def narrow_starts_def)
  show ?thesis
    unfolding tiers_partition_def using cover m1 m2 r1 r2 by blast
qed

lemma three_tier_starts:
  assumes "0 \<le> len" "len \<le> INT_MAX" "0 < W2" "W2 \<le> W1" "W1 \<le> 8"
  shows "three_tier W1 W2 wide narrow scalar len s =
    Some (fold scalar (scalar_starts W1 W2 len)
         (fold narrow (narrow_starts W1 W2 len)
         (fold wide (wide_starts W1 len) s)))"
  unfolding scalar_starts_def narrow_starts_def wide_starts_def using assms by (rule three_tier_schedule)

section \<open>The sum algorithm of the specification\<close>

lemma fold_chunks_lane_sums:
  "fold (\<lambda>m acc. map2 f acc (map (\<lambda>j. h (a + int (W * m + j))) [0..<W])) [0..<k] (replicate W z)
     = lane_sums W f z a k h"
proof (induction k)
  case 0
  show ?case by (simp add: lane_sums_0)
next
  case (Suc k)
  have "map2 f (lane_sums W f z a k h) (map (\<lambda>j. h (a + int (W * k + j))) [0..<W])
      = lane_sums W f z a (Suc k) h"
    by (simp add: lane_sums_def map2_map_map)
  then show ?case using Suc by simp
qed

lemma length_lane_sums [simp]: "length (lane_sums W f z a k h) = W"
  by (simp add: lane_sums_def)

lemma pairwise_fold_twice:
  assumes "length xs = 4"
  shows "hd ((pairwise_fold f ^^ 2) xs) = collapse_ps f xs"
proof -
  from assms obtain x0 x1 x2 x3 where "xs = [x0, x1, x2, x3]"
    by (auto simp: eval_nat_numeral length_Suc_conv)
  then show ?thesis by (simp add: eval_nat_numeral collapse_ps_def)
qed

lemma pairwise_fold_once:
  assumes "length xs = 2"
  shows "hd (pairwise_fold f xs) = collapse_pd f xs"
proof -
  from assms obtain x0 x1 where "xs = [x0, x1]"
    by (auto simp: eval_nat_numeral length_Suc_conv)
  then show ?thesis by (simp add: collapse_pd_def)
qed

lemma spec_sum_lanes:
  "spec_sum W passes F a len h =
     foldl (fadd F) (hd ((pairwise_fold (fadd F) ^^ passes) (lane_sums W (fadd F) (fzero F) a (nat len div W) h)))
       (spec_rest W a len h)"
  by (simp only: spec_sum_def Let_def fold_chunks_lane_sums)

lemma length_spec_rest: "0 < W \<Longrightarrow> length (spec_rest W a len h) < W"
proof -
  assume W: "0 < W"
  have "nat len = W * (nat len div W) + nat len mod W" by simp
  moreover have "nat len mod W < W" using W by simp
  ultimately have "nat len - W * (nat len div W) < W" by linarith
  then show ?thesis by (simp add: spec_rest_def)
qed

section \<open>The allocator\<close>



section \<open>Kernels on overlapping buffers\<close>

lemma read_safe_self: "read_safe c c len"
  by (simp add: read_safe_def)

lemma vadds_13:
  "sse_utils_vadds F c a b 13 h =
     Some (ew_chunk (fadd F) c a b 1 12 (ew_chunk (fadd F) c a b 4 8 (ew_chunk (fadd F) c a b 8 0 h)))"
  unfolding sse_utils_vadds_tiers
  by (simp add: three_tier_starts INT_MAX_def wide_starts_def narrow_starts_def scalar_starts_def
      chunk_starts_def wide_end_def narrow_end_def)

lemma vmuls_13:
  "sse_utils_vmuls F c a b 13 h =
     Some (ew_chunk (fmul F) c a b 1 12 (ew_chunk (fmul F) c a b 4 8 (ew_chunk (fmul F) c a b 8 0 h)))"
  unfolding sse_utils_vmuls_tiers
  by (simp add: three_tier_starts INT_MAX_def wide_starts_def narrow_starts_def scalar_starts_def
      chunk_starts_def wide_end_def narrow_end_def)

lemma vaddd_6:
  "sse_utils_vaddd F c a b 6 h =
     Some (ew_chunk (fadd F) c a b 2 4 (ew_chunk (fadd F) c a b 4 0 h))"
  unfolding sse_utils_vaddd_tiers
  by (simp add: three_tier_starts INT_MAX_def wide_starts_def narrow_starts_def scalar_starts_def
      chunk_starts_def wide_end_def narrow_end_def)

lemma vmuld_6:
  "sse_utils_vmuld F c a b 6 h =
     Some (ew_chunk (fmul F) c a b 2 4 (ew_chunk (fmul F) c a b 4 0 h))"
  unfolding sse_utils_vmuld_tiers
  by (simp add: three_tier_starts INT_MAX_def wide_starts_def narrow_starts_def scalar_starts_def
      chunk_starts_def wide_end_def narrow_end_def)

lemma vadds_2:
  "sse_utils_vadds F c a b 2 h =
     Some (ew_chunk (fadd F) c a b 1 1 (ew_chunk (fadd F) c a b 1 0 h))"
  unfolding sse_utils_vadds_tiers
  by (simp add: three_tier_starts INT_MAX_def wide_starts_def narrow_starts_def scalar_starts_def
      chunk_starts_def wide_end_def narrow_end_def eval_nat_numeral)

section \<open>Rounding to nearest\<close>

lemma pow2_pos [simp]: "0 < pow2 e"
  by (simp add: pow2_def)

lemma pow2_nonneg [simp]: "0 \<le> pow2 e"
  by (simp add: pow2_def)

lemma pow2_neq0 [simp]: "pow2 e \<noteq> 0"
  by (simp add: pow2_def)

lemma pow2_0 [simp]: "pow2 0 = 1"
  by (simp add: pow2_def)

lemma pow2_add: "pow2 (a + b) = pow2 a * pow2 b"
  by (simp add: pow2_def powr_add)

lemma pow2_diff: "pow2 (a - b) = pow2 a / pow2 b"
  by (simp add: pow2_def powr_diff)

lemma pow2_nat: "pow2 (int n) = 2 ^ n"
  by (simp add: pow2_def powr_realpow)

lemma pow2_mono: "a \<le> b \<Longrightarrow> pow2 a \<le> pow2 b"
  by (simp add: pow2_def)

lemma pow2_strict_mono: "a < b \<Longrightarrow> pow2 a < pow2 b"
  by (simp add: pow2_def)

lemma pow2_Suc: "pow2 (e + 1) = 2 * pow2 e"
  by (simp add: pow2_def powr_add)

lemma round_even_of_int [simp]: "round_even (of_int k) = k"
  by (simp add: round_even_def)

lemma round_even_cases:
  fixes y :: real
  defines "d \<equiv> y - of_int \<lfloor>y\<rfloor>"
  shows "(round_even y = \<lfloor>y\<rfloor> \<and> d \<le> 1 / 2) \<or> (round_even y = \<lfloor>y\<rfloor> + 1 \<and> 1 / 2 \<le> d)"
  unfolding round_even_def d_def Let_def by auto

lemma round_even_nearest: "\<bar>of_int (round_even y) - y\<bar> \<le> \<bar>of_int k - y\<bar>"
proof -
  let ?f = "\<lfloor>y\<rfloor>" let ?d = "y - of_int \<lfloor>y\<rfloor>"
  have d: "0 \<le> ?d" "?d < 1" by linarith+
  have err: "\<bar>of_int (round_even y) - y\<bar> \<le> ?d" "\<bar>of_int (round_even y) - y\<bar> \<le> 1 - ?d"
    using round_even_cases [of y] d by auto
  show ?thesis
  proof (cases "k \<le> ?f")
    case True
    then have "of_int k \<le> (of_int ?f :: real)" by simp
    then have "?d \<le> \<bar>of_int k - y\<bar>" by linarith
    with err(1) show ?thesis by linarith
  next
    case False
    then have "?f + 1 \<le> k" by simp
    then have "of_int (?f + 1) \<le> (of_int k :: real)" by (simp only: of_int_le_iff)
    then have "1 - ?d \<le> \<bar>of_int k - y\<bar>" by simp
    with err(2) show ?thesis by linarith
  qed
qed

lemma round_even_half: "\<bar>of_int (round_even y) - y\<bar> \<le> 1 / 2"
  using round_even_cases [of y] by auto

lemma expo_bounds:
  assumes "x \<noteq> 0"
  shows "pow2 \<lfloor>log 2 \<bar>x\<bar>\<rfloor> \<le> \<bar>x\<bar>" "\<bar>x\<bar> < pow2 (\<lfloor>log 2 \<bar>x\<bar>\<rfloor> + 1)"
proof -
  have "0 < \<bar>x\<bar>" using assms by simp
  then have "2 powr (of_int \<lfloor>log 2 \<bar>x\<bar>\<rfloor>) \<le> \<bar>x\<bar> \<and> \<bar>x\<bar> < 2 powr (of_int (\<lfloor>log 2 \<bar>x\<bar>\<rfloor> + 1))"
    using floor_log_eq_powr_iff [of "\<bar>x\<bar>" 2 "\<lfloor>log 2 \<bar>x\<bar>\<rfloor>"] by simp
  then show "pow2 \<lfloor>log 2 \<bar>x\<bar>\<rfloor> \<le> \<bar>x\<bar>" "\<bar>x\<bar> < pow2 (\<lfloor>log 2 \<bar>x\<bar>\<rfloor> + 1)"
    by (simp_all add: pow2_def)
qed

lemma expo_unique:
  assumes "pow2 e \<le> \<bar>x\<bar>" "\<bar>x\<bar> < pow2 (e + 1)"
  shows "\<lfloor>log 2 \<bar>x\<bar>\<rfloor> = e"
proof -
  have "0 < pow2 e" by simp
  then have "0 < \<bar>x\<bar>" using assms(1) by linarith
  then show ?thesis
    using floor_log_eq_powr_iff [of "\<bar>x\<bar>" 2 e] assms by (simp add: pow2_def)
qed

text \<open>The exponent \<open>q\<close> of the unit in the last place.\<close>

lemma ulp_cases:
  assumes "x \<noteq> 0"
  obtains q where "ulp p emax x = pow2 q" "2 - emax - int p \<le> q" "\<bar>x\<bar> < pow2 (q + int p)"
    "q = 2 - emax - int p \<or> pow2 (q + int p - 1) \<le> \<bar>x\<bar>"
proof -
  let ?e = "\<lfloor>log 2 \<bar>x\<bar>\<rfloor>"
  let ?q = "max ?e (1 - emax) - int p + 1"
  note b = expo_bounds [OF assms]
  have 1: "ulp p emax x = pow2 ?q" by (simp add: ulp_def)
  have 2: "2 - emax - int p \<le> ?q" by simp
  have "pow2 (?e + 1) \<le> pow2 (?q + int p)" by (intro pow2_mono) simp
  with b(2) have 3: "\<bar>x\<bar> < pow2 (?q + int p)" by linarith
  have 4: "?q = 2 - emax - int p \<or> pow2 (?q + int p - 1) \<le> \<bar>x\<bar>"
  proof (cases "1 - emax \<le> ?e")
    case True
    then have "?q + int p - 1 = ?e" by simp
    with b(1) show ?thesis by simp
  next
    case False
    then show ?thesis by simp
  qed
  from 1 2 3 4 show ?thesis by (rule that)
qed

lemma round_nearest_grid:
  assumes "x \<noteq> 0" "ulp p emax x = pow2 q"
  shows "\<bar>round_nearest p emax x - x\<bar> \<le> \<bar>of_int j * pow2 q - x\<bar>"
proof -
  let ?U = "pow2 q"
  have r: "round_nearest p emax x = of_int (round_even (x / ?U)) * ?U"
    using assms by (simp add: round_nearest_def)
  have "round_nearest p emax x - x = (of_int (round_even (x / ?U)) - x / ?U) * ?U"
    by (simp add: r algebra_simps)
  then have "\<bar>round_nearest p emax x - x\<bar> = \<bar>of_int (round_even (x / ?U)) - x / ?U\<bar> * ?U"
    by (simp add: abs_mult)
  also have "\<dots> \<le> \<bar>of_int j - x / ?U\<bar> * ?U"
    by (intro mult_right_mono round_even_nearest) simp
  also have "\<dots> = \<bar>(of_int j - x / ?U) * ?U\<bar>" by (simp add: abs_mult)
  also have "(of_int j - x / ?U) * ?U = of_int j * ?U - x" by (simp add: algebra_simps)
  finally show ?thesis .
qed

lemma round_nearest_half_ulp:
  assumes "x \<noteq> 0"
  shows "\<bar>round_nearest p emax x - x\<bar> \<le> ulp p emax x / 2"
proof -
  let ?U = "ulp p emax x"
  have U: "0 < ?U" by (simp add: ulp_def)
  have "round_nearest p emax x - x = (of_int (round_even (x / ?U)) - x / ?U) * ?U"
    using assms U by (simp add: round_nearest_def algebra_simps)
  then have "\<bar>round_nearest p emax x - x\<bar> = \<bar>of_int (round_even (x / ?U)) - x / ?U\<bar> * ?U"
    using U by (simp add: abs_mult)
  also have "\<dots> \<le> 1 / 2 * ?U"
    using U by (intro mult_right_mono round_even_half) simp
  finally show ?thesis by simp
qed

lemma grid_of_representable:
  assumes "x = of_int m * pow2 e" "q \<le> e"
  shows "x = of_int (m * 2 ^ nat (e - q)) * pow2 q"
proof -
  have "pow2 e = pow2 (int (nat (e - q)) + q)" using assms(2) by simp
  also have "\<dots> = 2 ^ nat (e - q) * pow2 q" by (simp only: pow2_add pow2_nat)
  finally show ?thesis using assms(1) by simp
qed

lemma round_nearest_nearest:
  assumes "representable p emax z" "1 \<le> p"
  shows "\<bar>round_nearest p emax x - x\<bar> \<le> \<bar>z - x\<bar>"
proof (cases "x = 0")
  case True
  then show ?thesis by (simp add: round_nearest_def)
next
  case False
  from assms(1) obtain m e where z: "z = of_int m * pow2 e" "\<bar>m\<bar> < 2 ^ p" "2 - emax - int p \<le> e"
    unfolding representable_def by blast
  from ulp_cases [OF False, of p emax] obtain q where q: "ulp p emax x = pow2 q"
    "2 - emax - int p \<le> q" "\<bar>x\<bar> < pow2 (q + int p)"
    "q = 2 - emax - int p \<or> pow2 (q + int p - 1) \<le> \<bar>x\<bar>"
    by blast
  show ?thesis
  proof (cases "q \<le> e")
    case True
    have "z = of_int (m * 2 ^ nat (e - q)) * pow2 q"
      using z(1) True by (rule grid_of_representable)
    then show ?thesis
      using round_nearest_grid [OF False q(1), of "m * 2 ^ nat (e - q)"] by (simp only:)
  next
    case lower: False
    then have normal: "pow2 (q + int p - 1) \<le> \<bar>x\<bar>" using q(4) z(3) by auto
    have "\<bar>of_int m :: real\<bar> \<le> 2 ^ p" using z(2) by (metis less_imp_le of_int_abs of_int_le_iff of_int_numeral of_int_power)
    then have "\<bar>z\<bar> \<le> 2 ^ p * pow2 e" by (simp add: z(1) abs_mult)
    also have "\<dots> = pow2 (int p + e)" by (simp add: pow2_add pow2_nat)
    also have "\<dots> \<le> pow2 (q + int p - 1)" using lower by (intro pow2_mono) simp
    finally have zt: "\<bar>z\<bar> \<le> pow2 (q + int p - 1)" .
    have pp: "pow2 (q + int p - 1) = 2 ^ (p - 1) * pow2 q"
    proof -
      have "q + int p - 1 = int (p - 1) + q" using assms(2) by simp
      then show ?thesis by (simp only: pow2_add pow2_nat)
    qed
    show ?thesis
    proof (cases "0 < x")
      case True
      have "\<bar>round_nearest p emax x - x\<bar> \<le> \<bar>of_int (2 ^ (p - 1)) * pow2 q - x\<bar>"
        using False q(1) by (rule round_nearest_grid)
      also have "\<dots> = x - pow2 (q + int p - 1)" using normal True by (simp add: pp)
      also have "\<dots> \<le> \<bar>z - x\<bar>" using zt by linarith
      finally show ?thesis .
    next
      case neg: False
      have "\<bar>round_nearest p emax x - x\<bar> \<le> \<bar>of_int (- (2 ^ (p - 1))) * pow2 q - x\<bar>"
        using False q(1) by (rule round_nearest_grid)
      also have "\<dots> = - x - pow2 (q + int p - 1)" using normal neg False by (simp add: pp)
      also have "\<dots> \<le> \<bar>z - x\<bar>" using zt by linarith
      finally show ?thesis .
    qed
  qed
qed

lemma round_nearest_id:
  assumes "representable p emax x" "1 \<le> p"
  shows "round_nearest p emax x = x"
  using round_nearest_nearest [OF assms, of x] by simp

lemma representable_0: "representable p emax 0"
  unfolding representable_def by (intro exI [of _ 0] exI [of _ "2 - emax - int p"]) simp

lemma representable_minus: "representable p emax x \<Longrightarrow> representable p emax (- x)"
proof -
  assume "representable p emax x"
  then obtain m e where "x = of_int m * pow2 e" "\<bar>m\<bar> < 2 ^ p" "2 - emax - int p \<le> e"
    unfolding representable_def by blast
  then have "- x = of_int (- m) * pow2 e \<and> \<bar>- m\<bar> < 2 ^ p \<and> 2 - emax - int p \<le> e" by simp
  then show ?thesis unfolding representable_def by blast
qed

lemma representable_max:
  assumes "1 \<le> emax"
  shows "representable p emax (max_finite p emax)"
proof -
  have "max_finite p emax = of_int (2 ^ p - 1) * pow2 (emax - int p + 1)"
    by (simp add: max_finite_def)
  moreover have "\<bar>(2::int) ^ p - 1\<bar> < 2 ^ p" by simp
  moreover have "2 - emax - int p \<le> emax - int p + 1" using assms by simp
  ultimately show ?thesis unfolding representable_def by blast
qed

lemma max_finite_nonneg: "0 \<le> max_finite p emax"
  by (simp add: max_finite_def)

lemma representable_grid:
  assumes "representable p emax x"
  shows "\<exists>j. x = of_int j * pow2 (2 - emax - int p)"
proof -
  from assms obtain m e where "x = of_int m * pow2 e" "2 - emax - int p \<le> e"
    unfolding representable_def by blast
  then have "x = of_int (m * 2 ^ nat (e - (2 - emax - int p))) * pow2 (2 - emax - int p)"
    by (rule grid_of_representable)
  then show ?thesis by blast
qed

lemma representable_sum_grid:
  assumes "representable p emax x" "representable p emax y"
  shows "\<exists>j. x + y = of_int j * pow2 (2 - emax - int p)"
proof -
  from representable_grid [OF assms(1)] representable_grid [OF assms(2)]
  obtain j k where "x = of_int j * pow2 (2 - emax - int p)" "y = of_int k * pow2 (2 - emax - int p)"
    by blast
  then have "x + y = of_int (j + k) * pow2 (2 - emax - int p)" by (simp add: algebra_simps)
  then show ?thesis by blast
qed

lemma round_nearest_relative:
  assumes "x = of_int j * pow2 (2 - emax - int p)" "1 \<le> p"
  shows "\<bar>round_nearest p emax x - x\<bar> \<le> 1 / 2 ^ p * \<bar>x\<bar>"
proof (cases "x = 0")
  case True
  then show ?thesis by (simp add: round_nearest_def)
next
  case False
  from ulp_cases [OF False, of p emax] obtain q where q: "ulp p emax x = pow2 q"
    "q = 2 - emax - int p \<or> pow2 (q + int p - 1) \<le> \<bar>x\<bar>"
    by blast
  show ?thesis
  proof (cases "q = 2 - emax - int p")
    case True
    have "\<bar>round_nearest p emax x - x\<bar> \<le> \<bar>of_int j * pow2 q - x\<bar>"
      using False q(1) by (rule round_nearest_grid)
    also have "\<dots> = 0" using assms(1) True by simp
    finally show ?thesis by (smt (verit) divide_nonneg_nonneg mult_nonneg_nonneg zero_le_power abs_ge_zero)
  next
    case False
    then have normal: "pow2 (q + int p - 1) \<le> \<bar>x\<bar>" using q(2) by simp
    have "q + int p - 1 = int p + (q - 1)" by simp
    then have "pow2 (q + int p - 1) = 2 ^ p * pow2 (q - 1)" by (simp only: pow2_add pow2_nat)
    moreover have "pow2 (q - 1) = pow2 q / 2" using pow2_Suc [of "q - 1"] by simp
    ultimately have "2 ^ p * (pow2 q / 2) \<le> \<bar>x\<bar>" using normal by simp
    then have "pow2 q / 2 \<le> \<bar>x\<bar> / 2 ^ p"
      by (simp add: pos_le_divide_eq mult.commute)
    moreover have "\<bar>round_nearest p emax x - x\<bar> \<le> pow2 q / 2"
      using round_nearest_half_ulp [OF \<open>x \<noteq> 0\<close>, of p emax] q(1) by simp
    ultimately have "\<bar>round_nearest p emax x - x\<bar> \<le> \<bar>x\<bar> / 2 ^ p" by linarith
    then show ?thesis by simp
  qed
qed

lemma round_even_bound:
  assumes "\<bar>y\<bar> < of_int n"
  shows "\<bar>round_even y\<bar> \<le> n"
proof -
  have "y < of_int n" "- of_int n < y" using assms by linarith+
  then have "\<lfloor>y\<rfloor> < n" "- n \<le> \<lfloor>y\<rfloor>" by (simp_all add: floor_less_iff le_floor_iff)
  then have "\<lfloor>y\<rfloor> \<le> n - 1" by simp
  moreover have "- n \<le> \<lfloor>y\<rfloor>" by fact
  moreover have "round_even y = \<lfloor>y\<rfloor> \<or> round_even y = \<lfloor>y\<rfloor> + 1"
    using round_even_cases [of y] by blast
  ultimately show ?thesis by linarith
qed

lemma round_nearest_representable:
  assumes "1 \<le> p"
  shows "representable p emax (round_nearest p emax x)"
proof (cases "x = 0")
  case True
  then show ?thesis by (simp add: round_nearest_def representable_0)
next
  case False
  from ulp_cases [OF False, of p emax] obtain q where q: "ulp p emax x = pow2 q"
    "2 - emax - int p \<le> q" "\<bar>x\<bar> < pow2 (q + int p)"
    by blast
  let ?k = "round_even (x / pow2 q)"
  have r: "round_nearest p emax x = of_int ?k * pow2 q"
    using False q(1) by (simp add: round_nearest_def)
  have "\<bar>x / pow2 q\<bar> < pow2 (q + int p) / pow2 q"
    using q(3) by (simp add: divide_strict_right_mono)
  also have "\<dots> = of_int (2 ^ p)" by (simp add: pow2_add pow2_nat)
  finally have k: "\<bar>?k\<bar> \<le> 2 ^ p" by (rule round_even_bound)
  show ?thesis
  proof (cases "\<bar>?k\<bar> < 2 ^ p")
    case True
    with r q(2) show ?thesis unfolding representable_def by blast
  next
    case False
    with k have "?k = 2 ^ p \<or> ?k = - (2 ^ p)" by linarith
    then have "round_nearest p emax x = of_int 1 * pow2 (int p + q) \<or>
        round_nearest p emax x = of_int (- 1) * pow2 (int p + q)"
      by (auto simp: r pow2_add pow2_nat)
    moreover have "\<bar>1::int\<bar> < 2 ^ p" "\<bar>- 1::int\<bar> < 2 ^ p"
      using assms by (simp_all add: one_less_power)
    moreover have "2 - emax - int p \<le> int p + q" using q(2) by simp
    ultimately show ?thesis unfolding representable_def by blast
  qed
qed

lemma round_nearest_le_max:
  assumes "\<bar>x\<bar> \<le> max_finite p emax" "1 \<le> p" "1 \<le> emax"
  shows "\<bar>round_nearest p emax x\<bar> \<le> max_finite p emax"
proof -
  let ?M = "max_finite p emax" and ?r = "round_nearest p emax x"
  have up: "\<bar>?r - x\<bar> \<le> \<bar>?M - x\<bar>"
    using representable_max [OF assms(3)] assms(2) by (rule round_nearest_nearest)
  have lo: "\<bar>?r - x\<bar> \<le> \<bar>- ?M - x\<bar>"
    using representable_minus [OF representable_max [OF assms(3)]] assms(2)
    by (rule round_nearest_nearest)
  from up lo assms(1) show ?thesis by linarith
qed

section \<open>The error of a summation\<close>

lemma finite_float_val:
  assumes "finite_float p emax x"
  shows "representable p emax (val x)" "\<bar>val x\<bar> \<le> max_finite p emax"
  using assms by (cases x; simp add: finite_float_def representable_0 max_finite_nonneg)+

lemma ieee_add_finite:
  assumes "finite_float p emax x" "finite_float p emax y"
  shows "(x = NegZero \<and> y = NegZero) \<or>
         ieee_add p emax x y = ieee_round p emax (val x + val y < 0) (val x + val y)"
  using assms by (cases x; cases y; simp add: finite_float_def)

lemma val_ieee_round:
  assumes "\<bar>round_nearest p emax s\<bar> \<le> max_finite p emax"
  shows "val (ieee_round p emax neg s) = round_nearest p emax s"
  using assms by (simp add: ieee_round_def Let_def)

lemma finite_ieee_round:
  assumes "\<bar>round_nearest p emax s\<bar> \<le> max_finite p emax" "1 \<le> p"
  shows "finite_float p emax (ieee_round p emax neg s)"
  using assms round_nearest_representable [OF assms(2), of emax s]
  by (simp add: ieee_round_def Let_def finite_float_def representable_0 max_finite_nonneg)

lemma ieee_nearest_adder:
  assumes "1 \<le> p" "1 \<le> emax"
  shows "nearest_adder (ieee_fpu p emax) (finite_float p emax) val (1 / 2 ^ p) (max_finite p emax)"
  unfolding nearest_adder_def
proof (intro conjI allI impI)
  show "(0::real) \<le> 1 / 2 ^ p" by simp
  show "(1::real) / 2 ^ p \<le> 1" by (simp add: divide_le_eq_1)
  show "finite_float p emax (fzero (ieee_fpu p emax))"
    by (simp add: ieee_fpu_def finite_float_def representable_0 max_finite_nonneg)
  show "val (fzero (ieee_fpu p emax)) = 0" by (simp add: ieee_fpu_def)
next
  fix x y
  assume a: "finite_float p emax x \<and> finite_float p emax y \<and> \<bar>val x + val y\<bar> \<le> max_finite p emax"
  let ?s = "val x + val y" and ?z = "fadd (ieee_fpu p emax) x y"
  have fx: "representable p emax (val x)" and fy: "representable p emax (val y)"
    using a finite_float_val by blast+
  have goal: "finite_float p emax ?z \<and> \<bar>val ?z - ?s\<bar> \<le> 1 / 2 ^ p * \<bar>?s\<bar> \<and>
      \<bar>val ?z - ?s\<bar> \<le> \<bar>val x\<bar> \<and> \<bar>val ?z - ?s\<bar> \<le> \<bar>val y\<bar>"
  proof (cases "x = NegZero \<and> y = NegZero")
    case True
    then show ?thesis by (simp add: ieee_fpu_def finite_float_def)
  next
    case False
    with ieee_add_finite [of p emax x y] a
    have z: "?z = ieee_round p emax (?s < 0) ?s" by (simp add: ieee_fpu_def)
    have m: "\<bar>round_nearest p emax ?s\<bar> \<le> max_finite p emax"
      using a assms by (intro round_nearest_le_max) simp_all
    have v: "val ?z = round_nearest p emax ?s" unfolding z using m by (rule val_ieee_round)
    have f: "finite_float p emax ?z" unfolding z using m assms(1) by (rule finite_ieee_round)
    from representable_sum_grid [OF fx fy] obtain j where "?s = of_int j * pow2 (2 - emax - int p)"
      by blast
    then have e1: "\<bar>round_nearest p emax ?s - ?s\<bar> \<le> 1 / 2 ^ p * \<bar>?s\<bar>"
      using assms(1) by (rule round_nearest_relative)
    have "\<bar>round_nearest p emax ?s - ?s\<bar> \<le> \<bar>val y - ?s\<bar>"
      using fy assms(1) by (rule round_nearest_nearest)
    then have e2: "\<bar>round_nearest p emax ?s - ?s\<bar> \<le> \<bar>val x\<bar>" by simp
    have "\<bar>round_nearest p emax ?s - ?s\<bar> \<le> \<bar>val x - ?s\<bar>"
      using fx assms(1) by (rule round_nearest_nearest)
    then have e3: "\<bar>round_nearest p emax ?s - ?s\<bar> \<le> \<bar>val y\<bar>" by simp
    from f e1 e2 e3 show ?thesis by (simp only: v)
  qed
  from goal show "finite_float p emax ?z" "\<bar>val ?z - ?s\<bar> \<le> 1 / 2 ^ p * \<bar>?s\<bar>"
    "\<bar>val ?z - ?s\<bar> \<le> \<bar>val x\<bar>" "\<bar>val ?z - ?s\<bar> \<le> \<bar>val y\<bar>"
    by blast+
qed

lemma exact_nearest_adder: "nearest_adder exact_fpu (\<lambda>x. True) (\<lambda>x. x) 0 M"
  by (simp add: nearest_adder_def exact_fpu_def)

lemma summed_leaf: "fin x \<Longrightarrow> summed fin vl eps 0 x (vl x) \<bar>vl x\<bar>"
  by (simp add: summed_def)

lemma summed_zero: "nearest_adder F fin vl eps M \<Longrightarrow> summed fin vl eps 0 (fzero F) 0 0"
  by (simp add: summed_def nearest_adder_def)

lemma summed_magnitude:
  assumes "summed fin vl eps k x S A"
  shows "\<bar>vl x\<bar> \<le> (1 + real k * eps) * A"
proof -
  have "\<bar>vl x\<bar> \<le> \<bar>S\<bar> + \<bar>vl x - S\<bar>" by linarith
  also have "\<dots> \<le> A + real k * eps * A" using assms unfolding summed_def by linarith
  finally show ?thesis by (simp add: algebra_simps)
qed

lemma summed_add:
  assumes F: "nearest_adder F fin vl eps M"
    and x: "summed fin vl eps k x S A" and y: "summed fin vl eps l y T B"
    and M: "(1 + real (k + l + 1) * eps) * (A + B) \<le> M"
  shows "summed fin vl eps (k + l + 1) (fadd F x y) (S + T) (A + B)"
proof -
  have eps: "0 \<le> eps" "eps \<le> 1" using F unfolding nearest_adder_def by simp_all
  have A: "0 \<le> A" and B: "0 \<le> B" using x y unfolding summed_def by linarith+
  have ex: "\<bar>vl x - S\<bar> \<le> real k * eps * A" and ey: "\<bar>vl y - T\<bar> \<le> real l * eps * B"
    using x y unfolding summed_def by simp_all
  note mx = summed_magnitude [OF x] and my = summed_magnitude [OF y]
  let ?s = "vl x + vl y" and ?r = "vl (fadd F x y)"
  have s: "\<bar>?s\<bar> \<le> (1 + real k * eps) * A + (1 + real l * eps) * B" using mx my by linarith
  have "(1 + real k * eps) * A \<le> (1 + real (k + l + 1) * eps) * A"
    using A eps by (intro mult_right_mono add_left_mono) simp_all
  moreover have "(1 + real l * eps) * B \<le> (1 + real (k + l + 1) * eps) * B"
    using B eps by (intro mult_right_mono add_left_mono) simp_all
  ultimately have "\<bar>?s\<bar> \<le> (1 + real (k + l + 1) * eps) * (A + B)"
    using s by (simp add: distrib_left)
  then have "\<bar>?s\<bar> \<le> M" using M by linarith
  moreover have "fin x" "fin y" using x y unfolding summed_def by simp_all
  ultimately have fin: "fin (fadd F x y)" and d1: "\<bar>?r - ?s\<bar> \<le> eps * \<bar>?s\<bar>"
    and d2: "\<bar>?r - ?s\<bar> \<le> \<bar>vl x\<bar>" and d3: "\<bar>?r - ?s\<bar> \<le> \<bar>vl y\<bar>"
    using F unfolding nearest_adder_def by blast+
  have delta: "\<bar>?r - ?s\<bar> \<le> eps * ((real l + 1) * A + (real k + 1) * B)"
  proof -
    consider "B \<le> eps * A" | "A \<le> eps * B" | "eps * A < B" "eps * B < A" by linarith
    then show ?thesis
    proof cases
      case 1
      have "\<bar>?r - ?s\<bar> \<le> (1 + real l * eps) * B" using d3 my by linarith
      also have "\<dots> \<le> (1 + real l * eps) * (eps * A)"
        using 1 eps by (intro mult_left_mono) simp_all
      also have "\<dots> \<le> (1 + real l * 1) * (eps * A)"
        using eps A by (intro mult_right_mono add_left_mono mult_left_mono) simp_all
      also have "\<dots> \<le> eps * ((real l + 1) * A + (real k + 1) * B)"
      proof -
        have "0 \<le> eps * ((real k + 1) * B)" using eps B by simp
        then show ?thesis by (simp add: algebra_simps)
      qed
      finally show ?thesis .
    next
      case 2
      have "\<bar>?r - ?s\<bar> \<le> (1 + real k * eps) * A" using d2 mx by linarith
      also have "\<dots> \<le> (1 + real k * eps) * (eps * B)"
        using 2 eps by (intro mult_left_mono) simp_all
      also have "\<dots> \<le> (1 + real k * 1) * (eps * B)"
        using eps B by (intro mult_right_mono add_left_mono mult_left_mono) simp_all
      also have "\<dots> \<le> eps * ((real l + 1) * A + (real k + 1) * B)"
      proof -
        have "0 \<le> eps * ((real l + 1) * A)" using eps A by simp
        then show ?thesis by (simp add: algebra_simps)
      qed
      finally show ?thesis .
    next
      case 3
      have "\<bar>?r - ?s\<bar> \<le> eps * ((1 + real k * eps) * A + (1 + real l * eps) * B)"
        using d1 s eps by (meson mult_left_mono order_trans)
      also have "\<dots> = eps * (A + B + (real k * (eps * A) + real l * (eps * B)))"
        by (simp add: algebra_simps)
      also have "\<dots> \<le> eps * (A + B + (real k * B + real l * A))"
        using 3 eps by (intro mult_left_mono add_left_mono add_mono) simp_all
      also have "\<dots> = eps * ((real l + 1) * A + (real k + 1) * B)" by (simp add: algebra_simps)
      finally show ?thesis .
    qed
  qed
  have "\<bar>?r - (S + T)\<bar> \<le> \<bar>?r - ?s\<bar> + \<bar>vl x - S\<bar> + \<bar>vl y - T\<bar>" by linarith
  also have "\<dots> \<le> eps * ((real l + 1) * A + (real k + 1) * B) + real k * eps * A + real l * eps * B"
    using delta ex ey by linarith
  also have "\<dots> = real (k + l + 1) * eps * (A + B)" by (simp add: algebra_simps)
  finally have "\<bar>?r - (S + T)\<bar> \<le> real (k + l + 1) * eps * (A + B)" .
  moreover have "\<bar>S + T\<bar> \<le> A + B" using x y unfolding summed_def by linarith
  ultimately show ?thesis using fin unfolding summed_def by simp
qed

lemma sum_list_upt: "sum_list (map x [m..<n]) = sum x {m..<n}"
  by (simp add: interv_sum_list_conv_sum_set_nat)

lemma strided_sum:
  fixes x :: "nat \<Rightarrow> real"
  assumes "W * k \<le> n"
  shows "(\<Sum>j<W. sum_list (map (\<lambda>m. x (W * m + j)) [0..<k])) + sum_list (map x [W * k..<n])
           = sum x {..<n}"
proof -
  have "(\<Sum>j<W. \<Sum>m<k. x (W * m + j)) = (\<Sum>m<k. \<Sum>j<W. x (W * m + j))"
    by (rule sum.swap)
  also have "\<dots> = (\<Sum>m<k. sum x {m * W..<m * W + W})"
  proof (rule sum.cong [OF refl])
    fix m
    have "sum x {0 + m * W..<W + m * W} = (\<Sum>j = 0..<W. x (j + m * W))"
      by (rule sum.shift_bounds_nat_ivl)
    then show "(\<Sum>j<W. x (W * m + j)) = sum x {m * W..<m * W + W}"
      by (simp add: atLeast0LessThan add.commute mult.commute)
  qed
  also have "\<dots> = sum x {..<k * W}"
    by (rule sum.nat_group)
  finally have lanes: "(\<Sum>j<W. \<Sum>m<k. x (W * m + j)) = sum x {..<W * k}"
    by (simp add: mult.commute)
  have "sum x {0..<W * k} + sum x {W * k..<n} = sum x {0..<n}"
    using assms by (intro sum.atLeastLessThan_concat) simp_all
  then show ?thesis
    by (simp add: sum_list_upt atLeast0LessThan lanes)
qed

lemma bound_mono:
  fixes eps :: real
  assumes "(1 + real k * eps) * A \<le> M" "k' \<le> k" "0 \<le> A'" "A' \<le> A" "0 \<le> eps"
  shows "(1 + real k' * eps) * A' \<le> M"
proof -
  have "(1 + real k' * eps) * A' \<le> (1 + real k * eps) * A'"
    using assms by (intro mult_right_mono add_left_mono) simp_all
  also have "\<dots> \<le> (1 + real k * eps) * A"
    using assms by (intro mult_left_mono) simp_all
  finally show ?thesis using assms(1) by linarith
qed

lemma summed_foldl:
  assumes F: "nearest_adder F fin vl eps M"
    and "summed fin vl eps k v S A" "\<forall>y \<in> set ys. fin y"
    and "(1 + real (k + length ys) * eps) * (A + sum_list (map (\<lambda>y. \<bar>vl y\<bar>) ys)) \<le> M"
  shows "summed fin vl eps (k + length ys) (foldl (fadd F) v ys)
           (S + sum_list (map vl ys)) (A + sum_list (map (\<lambda>y. \<bar>vl y\<bar>) ys))"
  using assms(2-)
proof (induction ys arbitrary: k v S A)
  case Nil
  then show ?case by simp
next
  case (Cons y ys)
  have eps: "0 \<le> eps" using F unfolding nearest_adder_def by simp
  have A: "0 \<le> A" using Cons.prems(1) unfolding summed_def by linarith
  have rest: "0 \<le> sum_list (map (\<lambda>y. \<bar>vl y\<bar>) ys)" by (intro sum_list_nonneg) auto
  have b: "(1 + real (k + Suc (length ys)) * eps) * (A + \<bar>vl y\<bar> + sum_list (map (\<lambda>y. \<bar>vl y\<bar>) ys)) \<le> M"
    using Cons.prems(3) by (simp add: add.assoc)
  have "(1 + real (k + 0 + 1) * eps) * (A + \<bar>vl y\<bar>) \<le> M"
    using b _ _ _ eps by (rule bound_mono) (use A rest in simp_all)
  with F Cons.prems(1) summed_leaf [of fin y vl eps]
  have step: "summed fin vl eps (k + 0 + 1) (fadd F v y) (S + vl y) (A + \<bar>vl y\<bar>)"
    using Cons.prems(2) by (intro summed_add) simp_all
  have "summed fin vl eps (k + 0 + 1 + length ys) (foldl (fadd F) (fadd F v y) ys)
      (S + vl y + sum_list (map vl ys)) (A + \<bar>vl y\<bar> + sum_list (map (\<lambda>y. \<bar>vl y\<bar>) ys))"
    using step Cons.prems(2) b by (intro Cons.IH) simp_all
  then show ?case by (simp add: add.assoc)
qed

lemma collapse_ps_summed:
  assumes F: "nearest_adder F fin vl eps M" and "length ls = 4"
    and l: "\<forall>j<4. summed fin vl eps m (ls ! j) (L j) (A j)"
    and b: "(1 + real (4 * m + 3) * eps) * (\<Sum>j<4. A j) \<le> M"
  shows "summed fin vl eps (4 * m + 3) (collapse_ps (fadd F) ls) (\<Sum>j<4. L j) (\<Sum>j<4. A j)"
proof -
  have eps: "0 \<le> eps" using F unfolding nearest_adder_def by simp
  have l0: "summed fin vl eps m (ls ! 0) (L 0) (A 0)" and l1: "summed fin vl eps m (ls ! 1) (L 1) (A 1)"
    and l2: "summed fin vl eps m (ls ! 2) (L 2) (A 2)" and l3: "summed fin vl eps m (ls ! 3) (L 3) (A 3)"
    using l by simp_all
  have A: "0 \<le> A 0" "0 \<le> A 1" "0 \<le> A 2" "0 \<le> A 3"
    using l0 l1 l2 l3 unfolding summed_def by linarith+
  have sA: "(\<Sum>j<4. A j) = (A 3 + A 2) + (A 1 + A 0)" and sL: "(\<Sum>j<4. L j) = (L 3 + L 2) + (L 1 + L 0)"
    by (simp_all add: eval_nat_numeral)
  have b': "(1 + real (4 * m + 3) * eps) * ((A 3 + A 2) + (A 1 + A 0)) \<le> M" using b sA by simp
  have "(1 + real (m + m + 1) * eps) * (A 3 + A 2) \<le> M"
    using b' _ _ _ eps by (rule bound_mono) (use A in simp_all)
  with F l3 l2 have hi: "summed fin vl eps (m + m + 1) (fadd F (ls ! 3) (ls ! 2)) (L 3 + L 2) (A 3 + A 2)"
    by (rule summed_add)
  have "(1 + real (m + m + 1) * eps) * (A 1 + A 0) \<le> M"
    using b' _ _ _ eps by (rule bound_mono) (use A in simp_all)
  with F l1 l0 have lo: "summed fin vl eps (m + m + 1) (fadd F (ls ! 1) (ls ! 0)) (L 1 + L 0) (A 1 + A 0)"
    by (rule summed_add)
  have "(1 + real ((m + m + 1) + (m + m + 1) + 1) * eps) * ((A 3 + A 2) + (A 1 + A 0)) \<le> M"
    using b' _ _ _ eps by (rule bound_mono) (use A in simp_all)
  with F hi lo have "summed fin vl eps ((m + m + 1) + (m + m + 1) + 1)
      (fadd F (fadd F (ls ! 3) (ls ! 2)) (fadd F (ls ! 1) (ls ! 0)))
      ((L 3 + L 2) + (L 1 + L 0)) ((A 3 + A 2) + (A 1 + A 0))"
    by (rule summed_add)
  moreover have "(m + m + 1) + (m + m + 1) + 1 = 4 * m + 3" by simp
  ultimately show ?thesis by (simp only: collapse_ps_def sA sL)
qed

lemma collapse_pd_summed:
  assumes F: "nearest_adder F fin vl eps M" and "length ls = 2"
    and l: "\<forall>j<2. summed fin vl eps m (ls ! j) (L j) (A j)"
    and b: "(1 + real (2 * m + 1) * eps) * (\<Sum>j<2. A j) \<le> M"
  shows "summed fin vl eps (2 * m + 1) (collapse_pd (fadd F) ls) (\<Sum>j<2. L j) (\<Sum>j<2. A j)"
proof -
  have l0: "summed fin vl eps m (ls ! 0) (L 0) (A 0)" and l1: "summed fin vl eps m (ls ! 1) (L 1) (A 1)"
    using l by simp_all
  have sA: "(\<Sum>j<2. A j) = A 1 + A 0" and sL: "(\<Sum>j<2. L j) = L 1 + L 0"
    by (simp_all add: eval_nat_numeral)
  have e: "m + m + 1 = 2 * m + 1" by simp
  have "(1 + real (m + m + 1) * eps) * (A 1 + A 0) \<le> M" using b by (simp only: sA e)
  with F l1 l0 have "summed fin vl eps (m + m + 1) (fadd F (ls ! 1) (ls ! 0)) (L 1 + L 0) (A 1 + A 0)"
    by (rule summed_add)
  then show ?thesis by (simp only: collapse_pd_def sA sL e)
qed

lemma sum_kernel_summed:
  assumes F: "nearest_adder F fin vl eps M"
    and len: "0 \<le> len" "len \<le> INT_MAX" and W: "0 < W" "W \<le> 8"
    and inputs: "\<forall>i<nat len. fin (h (a + int i))"
    and collapse: "\<And>ls m L A. length ls = W \<Longrightarrow> \<forall>j<W. summed fin vl eps m (ls ! j) (L j) (A j) \<Longrightarrow>
           (1 + real (W * m + (W - 1)) * eps) * (\<Sum>j<W. A j) \<le> M \<Longrightarrow>
           summed fin vl eps (W * m + (W - 1)) (collapse ls) (\<Sum>j<W. L j) (\<Sum>j<W. A j)"
    and bound: "(1 + real (nat len + (W - 1)) * eps) * magnitude_sum vl a len h \<le> M"
  shows "\<exists>v. sum_kernel W collapse (fadd F) (fzero F) a len h = Some (v, h) \<and>
           summed fin vl eps (nat len + (W - 1)) v (\<Sum>i<nat len. vl (h (a + int i)))
             (magnitude_sum vl a len h)"
proof -
  let ?n = "nat len" and ?k = "nat len div W"
  let ?x = "\<lambda>i. h (a + int i)"
  let ?lanes = "lane_sums W (fadd F) (fzero F) a ?k h"
  let ?rest = "map ?x [W * ?k..<?n]"
  let ?xs = "\<lambda>j. map (\<lambda>m. ?x (W * m + j)) [0..<?k]"
  let ?L = "\<lambda>j. sum_list (map vl (?xs j))"
  let ?A = "\<lambda>j. sum_list (map (\<lambda>y. \<bar>vl y\<bar>) (?xs j))"
  let ?Atot = "magnitude_sum vl a len h"
  have eps: "0 \<le> eps" using F unfolding nearest_adder_def by simp
  have le: "W * ?k \<le> ?n" by simp
  have res: "sum_kernel W collapse (fadd F) (fzero F) a len h = Some (foldl (fadd F) (collapse ?lanes) ?rest, h)"
    using len W by (rule sum_kernel_closed)
  have Aj: "0 \<le> ?A j" for j by (intro sum_list_nonneg) auto
  have restA: "0 \<le> sum_list (map (\<lambda>y. \<bar>vl y\<bar>) ?rest)" by (intro sum_list_nonneg) auto
  have totA: "(\<Sum>j<W. ?A j) + sum_list (map (\<lambda>y. \<bar>vl y\<bar>) ?rest) = ?Atot"
    using strided_sum [OF le, of "\<lambda>i. \<bar>vl (?x i)\<bar>"] by (simp add: comp_def magnitude_sum_def)
  have totL: "(\<Sum>j<W. ?L j) + sum_list (map vl ?rest) = (\<Sum>i<?n. vl (?x i))"
    using strided_sum [OF le, of "\<lambda>i. vl (?x i)"] by (simp add: comp_def)
  have lanesA: "(\<Sum>j<W. ?A j) \<le> ?Atot" using totA restA by linarith
  have "?A j \<le> (\<Sum>j<W. ?A j)" if "j < W" for j
    using that Aj by (intro member_le_sum) auto
  with lanesA have AjA: "?A j \<le> ?Atot" if "j < W" for j using that by fastforce
  have lane: "\<forall>j<W. summed fin vl eps ?k (?lanes ! j) (?L j) (?A j)"
  proof (intro allI impI)
    fix j assume j: "j < W"
    have "W * m + j < ?n" if "m < ?k" for m
    proof -
      have "W * m + j < W * Suc m" using j by simp
      also have "\<dots> \<le> W * ?k" using that by (intro mult_le_mono2) simp
      finally show ?thesis using le by linarith
    qed
    then have "fin (?x (W * m + j))" if "m < ?k" for m using inputs that by blast
    then have fins: "\<forall>y \<in> set (?xs j). fin y" by (auto simp del: of_nat_add of_nat_mult)
    have "?k \<le> ?n + (W - 1)" by (meson div_le_dividend trans_le_add1)
    with bound have "(1 + real ?k * eps) * ?A j \<le> M"
      using Aj AjA [OF j] eps by (rule bound_mono)
    then have "(1 + real (0 + length (?xs j)) * eps) * (0 + ?A j) \<le> M" by simp
    from summed_foldl [OF F summed_zero [OF F] fins this]
    show "summed fin vl eps ?k (?lanes ! j) (?L j) (?A j)"
      using j by (simp add: lane_sums_def)
  qed
  have kW: "W * ?k + (W - 1) + (?n - W * ?k) = ?n + (W - 1)" using le by simp
  have "W * ?k + (W - 1) \<le> ?n + (W - 1)" using le by simp
  moreover have "0 \<le> (\<Sum>j<W. ?A j)" by (intro sum_nonneg Aj)
  ultimately have "(1 + real (W * ?k + (W - 1)) * eps) * (\<Sum>j<W. ?A j) \<le> M"
    using bound lanesA eps by (intro bound_mono [OF bound])
  with lane have col: "summed fin vl eps (W * ?k + (W - 1)) (collapse ?lanes) (\<Sum>j<W. ?L j) (\<Sum>j<W. ?A j)"
    by (intro collapse) simp_all
  have finr: "\<forall>y \<in> set ?rest. fin y" using inputs by auto
  have "(1 + real (W * ?k + (W - 1) + length ?rest) * eps) *
      ((\<Sum>j<W. ?A j) + sum_list (map (\<lambda>y. \<bar>vl y\<bar>) ?rest)) \<le> M"
    using bound by (simp only: totA length_map length_upt kW)
  from summed_foldl [OF F col finr this]
  have "summed fin vl eps (?n + (W - 1)) (foldl (fadd F) (collapse ?lanes) ?rest)
      (\<Sum>i<?n. vl (?x i)) ?Atot"
    by (simp only: totA totL length_map length_upt kW)
  with res show ?thesis by simp
qed

lemma naive_sum_summed:
  assumes F: "nearest_adder F fin vl eps M"
    and inputs: "\<forall>i<nat len. fin (h (a + int i))"
    and bound: "(1 + real (nat len + c) * eps) * magnitude_sum vl a len h \<le> M"
  shows "summed fin vl eps (nat len) (naive_sum F a len h) (\<Sum>i<nat len. vl (h (a + int i)))
           (magnitude_sum vl a len h)"
proof -
  let ?xs = "map (\<lambda>i. h (a + int i)) [0..<nat len]"
  have eps: "0 \<le> eps" using F unfolding nearest_adder_def by simp
  have A: "sum_list (map (\<lambda>y. \<bar>vl y\<bar>) ?xs) = magnitude_sum vl a len h"
    by (simp add: magnitude_sum_def comp_def sum_list_upt atLeast0LessThan)
  have S: "sum_list (map vl ?xs) = (\<Sum>i<nat len. vl (h (a + int i)))"
    by (simp add: comp_def sum_list_upt atLeast0LessThan)
  have A0: "0 \<le> magnitude_sum vl a len h" unfolding magnitude_sum_def by (intro sum_nonneg) simp
  have fins: "\<forall>y \<in> set ?xs. fin y" using inputs by auto
  have "(1 + real (nat len) * eps) * magnitude_sum vl a len h \<le> M"
    using bound _ A0 _ eps by (rule bound_mono) simp_all
  then have "(1 + real (0 + length ?xs) * eps) * (0 + sum_list (map (\<lambda>y. \<bar>vl y\<bar>) ?xs)) \<le> M"
    by (simp only: A length_map length_upt) simp
  from summed_foldl [OF F summed_zero [OF F] fins this]
  show ?thesis by (simp only: naive_sum_def A S add_0 length_map length_upt diff_zero)
qed

lemma summed_difference:
  assumes "summed fin vl eps k v S A" "summed fin vl eps l w S A"
  shows "\<bar>vl v - vl w\<bar> \<le> real (k + l) * eps * A"
proof -
  have "\<bar>vl v - vl w\<bar> \<le> \<bar>vl v - S\<bar> + \<bar>vl w - S\<bar>" by linarith
  also have "\<dots> \<le> real k * eps * A + real l * eps * A"
    using assms unfolding summed_def by linarith
  finally show ?thesis by (simp add: algebra_simps)
qed

lemma kernel_vs_naive:
  assumes F: "nearest_adder F fin vl eps M"
    and len: "0 \<le> len" "len \<le> INT_MAX" and W: "0 < W" "W \<le> 8"
    and inputs: "\<forall>i<nat len. fin (h (a + int i))"
    and collapse: "\<And>ls m L A. length ls = W \<Longrightarrow> \<forall>j<W. summed fin vl eps m (ls ! j) (L j) (A j) \<Longrightarrow>
           (1 + real (W * m + (W - 1)) * eps) * (\<Sum>j<W. A j) \<le> M \<Longrightarrow>
           summed fin vl eps (W * m + (W - 1)) (collapse ls) (\<Sum>j<W. L j) (\<Sum>j<W. A j)"
    and bound: "(1 + real (nat len + (W - 1)) * eps) * magnitude_sum vl a len h \<le> M"
  shows "\<exists>v. sum_kernel W collapse (fadd F) (fzero F) a len h = Some (v, h) \<and> fin v \<and>
           \<bar>vl v - vl (naive_sum F a len h)\<bar>
             \<le> real (2 * nat len + (W - 1)) * eps * magnitude_sum vl a len h"
proof -
  let ?S = "\<Sum>i<nat len. vl (h (a + int i))" and ?A = "magnitude_sum vl a len h"
  have "\<exists>v. sum_kernel W collapse (fadd F) (fzero F) a len h = Some (v, h) \<and>
      summed fin vl eps (nat len + (W - 1)) v ?S ?A"
    by (rule sum_kernel_summed [where collapse = collapse, OF F len W inputs _ bound])
      (rule collapse; assumption)
  then obtain v where v: "sum_kernel W collapse (fadd F) (fzero F) a len h = Some (v, h)"
    and s: "summed fin vl eps (nat len + (W - 1)) v ?S ?A"
    by blast
  have n: "summed fin vl eps (nat len) (naive_sum F a len h) ?S ?A"
    using F inputs bound by (rule naive_sum_summed)
  have "\<bar>vl v - vl (naive_sum F a len h)\<bar> \<le> real (nat len + (W - 1) + nat len) * eps * ?A"
    using s n by (rule summed_difference)
  moreover have "nat len + (W - 1) + nat len = 2 * nat len + (W - 1)" by simp
  moreover have "fin v" using s unfolding summed_def by simp
  ultimately show ?thesis using v by (simp only: ) blast
qed

lemma sums_binary32:
  assumes len: "0 \<le> len" "len \<le> INT_MAX"
    and inputs: "\<forall>i. 0 \<le> i \<and> i < len \<longrightarrow> finite_float 24 127 (h (a + i))"
    and bound: "(1 + (of_int len + 3) / 2 ^ 24) * magnitude_sum val a len h \<le> max_finite 24 127"
  shows "\<exists>v. sse_utils_sums binary32 a len h = Some (v, h) \<and> finite_float 24 127 v \<and>
           \<bar>val v - val (naive_sum binary32 a len h)\<bar>
             \<le> (2 * of_int len + 3) / 2 ^ 24 * magnitude_sum val a len h"
proof -
  have F: "nearest_adder binary32 (finite_float 24 127) val (1 / 2 ^ 24) (max_finite 24 127)"
    unfolding binary32_def by (rule ieee_nearest_adder) simp_all
  have b: "(1 + real (nat len + (4 - 1)) * (1 / 2 ^ 24)) * magnitude_sum val a len h
             \<le> max_finite 24 127"
    using bound len by (simp add: add.commute)
  have i: "\<forall>i<nat len. finite_float 24 127 (h (a + int i))"
    using inputs by auto
  have "\<exists>v. sum_kernel 4 (collapse_ps (fadd binary32)) (fadd binary32) (fzero binary32) a len h
              = Some (v, h) \<and> finite_float 24 127 v \<and>
           \<bar>val v - val (naive_sum binary32 a len h)\<bar>
             \<le> real (2 * nat len + (4 - 1)) * (1 / 2 ^ 24) * magnitude_sum val a len h"
    using F len _ _ i _ b
  proof (rule kernel_vs_naive)
    fix ls :: "ieee list" and m L A
    assume "length ls = 4" "\<forall>j<4. summed (finite_float 24 127) val (1 / 2 ^ 24) m (ls ! j) (L j) (A j)"
      "(1 + real (4 * m + (4 - 1)) * (1 / 2 ^ 24)) * (\<Sum>j<4. A j) \<le> max_finite 24 127"
    then show "summed (finite_float 24 127) val (1 / 2 ^ 24) (4 * m + (4 - 1))
        (collapse_ps (fadd binary32) ls) (\<Sum>j<4. L j) (\<Sum>j<4. A j)"
      using collapse_ps_summed [OF F, of ls m L A] by simp
  qed simp_all
  moreover have "real (2 * nat len + (4 - 1)) * (1 / 2 ^ 24) = (2 * of_int len + 3) / 2 ^ 24"
    using len by simp
  ultimately show ?thesis by (simp only: sse_utils_sums_kernel)
qed

lemma sumd_binary64:
  assumes len: "0 \<le> len" "len \<le> INT_MAX"
    and inputs: "\<forall>i. 0 \<le> i \<and> i < len \<longrightarrow> finite_float 53 1023 (h (a + i))"
    and bound: "(1 + (of_int len + 1) / 2 ^ 53) * magnitude_sum val a len h \<le> max_finite 53 1023"
  shows "\<exists>v. sse_utils_sumd binary64 a len h = Some (v, h) \<and> finite_float 53 1023 v \<and>
           \<bar>val v - val (naive_sum binary64 a len h)\<bar>
             \<le> (2 * of_int len + 1) / 2 ^ 53 * magnitude_sum val a len h"
proof -
  have F: "nearest_adder binary64 (finite_float 53 1023) val (1 / 2 ^ 53) (max_finite 53 1023)"
    unfolding binary64_def by (rule ieee_nearest_adder) simp_all
  have b: "(1 + real (nat len + (2 - 1)) * (1 / 2 ^ 53)) * magnitude_sum val a len h
             \<le> max_finite 53 1023"
    using bound len by (simp add: add.commute)
  have i: "\<forall>i<nat len. finite_float 53 1023 (h (a + int i))"
    using inputs by auto
  have "\<exists>v. sum_kernel 2 (collapse_pd (fadd binary64)) (fadd binary64) (fzero binary64) a len h
              = Some (v, h) \<and> finite_float 53 1023 v \<and>
           \<bar>val v - val (naive_sum binary64 a len h)\<bar>
             \<le> real (2 * nat len + (2 - 1)) * (1 / 2 ^ 53) * magnitude_sum val a len h"
    using F len _ _ i _ b
  proof (rule kernel_vs_naive)
    fix ls :: "ieee list" and m L A
    assume "length ls = 2" "\<forall>j<2. summed (finite_float 53 1023) val (1 / 2 ^ 53) m (ls ! j) (L j) (A j)"
      "(1 + real (2 * m + (2 - 1)) * (1 / 2 ^ 53)) * (\<Sum>j<2. A j) \<le> max_finite 53 1023"
    then show "summed (finite_float 53 1023) val (1 / 2 ^ 53) (2 * m + (2 - 1))
        (collapse_pd (fadd binary64) ls) (\<Sum>j<2. L j) (\<Sum>j<2. A j)"
      using collapse_pd_summed [OF F, of ls m L A] by simp
  qed simp_all
  moreover have "real (2 * nat len + (2 - 1)) * (1 / 2 ^ 53) = (2 * of_int len + 1) / 2 ^ 53"
    using len by simp
  ultimately show ?thesis by (simp only: sse_utils_sumd_kernel)
qed

lemma sums_exact:
  assumes len: "0 \<le> len" "len \<le> INT_MAX"
  shows "sse_utils_sums exact_fpu a len h = Some (naive_sum exact_fpu a len h, h)"
proof -
  let ?M = "magnitude_sum (\<lambda>x. x) a len h"
  have F: "nearest_adder exact_fpu (\<lambda>x. True) (\<lambda>x. x) 0 ?M" by (rule exact_nearest_adder)
  have "\<exists>v. sum_kernel 4 (collapse_ps (fadd exact_fpu)) (fadd exact_fpu) (fzero exact_fpu) a len h
              = Some (v, h) \<and> True \<and>
           \<bar>v - naive_sum exact_fpu a len h\<bar> \<le> real (2 * nat len + (4 - 1)) * 0 * ?M"
    using F len
  proof (rule kernel_vs_naive)
    fix ls :: "real list" and m L A
    assume "length ls = 4" "\<forall>j<4. summed (\<lambda>x. True) (\<lambda>x. x) 0 m (ls ! j) (L j) (A j)"
      "(1 + real (4 * m + (4 - 1)) * 0) * (\<Sum>j<4. A j) \<le> ?M"
    then show "summed (\<lambda>x. True) (\<lambda>x. x) 0 (4 * m + (4 - 1))
        (collapse_ps (fadd exact_fpu) ls) (\<Sum>j<4. L j) (\<Sum>j<4. A j)"
      using collapse_ps_summed [OF F, of ls m L A] by simp
  qed simp_all
  then show ?thesis by (auto simp only: sse_utils_sums_kernel mult_zero_right mult_zero_left abs_le_zero_iff
        right_minus_eq)
qed

lemma sumd_exact:
  assumes len: "0 \<le> len" "len \<le> INT_MAX"
  shows "sse_utils_sumd exact_fpu a len h = Some (naive_sum exact_fpu a len h, h)"
proof -
  let ?M = "magnitude_sum (\<lambda>x. x) a len h"
  have F: "nearest_adder exact_fpu (\<lambda>x. True) (\<lambda>x. x) 0 ?M" by (rule exact_nearest_adder)
  have "\<exists>v. sum_kernel 2 (collapse_pd (fadd exact_fpu)) (fadd exact_fpu) (fzero exact_fpu) a len h
              = Some (v, h) \<and> True \<and>
           \<bar>v - naive_sum exact_fpu a len h\<bar> \<le> real (2 * nat len + (2 - 1)) * 0 * ?M"
    using F len
  proof (rule kernel_vs_naive)
    fix ls :: "real list" and m L A
    assume "length ls = 2" "\<forall>j<2. summed (\<lambda>x. True) (\<lambda>x. x) 0 m (ls ! j) (L j) (A j)"
      "(1 + real (2 * m + (2 - 1)) * 0) * (\<Sum>j<2. A j) \<le> ?M"
    then show "summed (\<lambda>x. True) (\<lambda>x. x) 0 (2 * m + (2 - 1))
        (collapse_pd (fadd exact_fpu) ls) (\<Sum>j<2. L j) (\<Sum>j<2. A j)"
      using collapse_pd_summed [OF F, of ls m L A] by simp
  qed simp_all
  then show ?thesis by (auto simp only: sse_utils_sumd_kernel mult_zero_right mult_zero_left abs_le_zero_iff
        right_minus_eq)
qed

section \<open>Sums of concrete data\<close>

lemma pow2_numeral: "pow2 (numeral n) = 2 ^ numeral n"
  using pow2_nat [of "numeral n"] by simp

lemma pow2_neg_numeral: "pow2 (- numeral n) = 1 / 2 ^ numeral n"
proof -
  have "pow2 (0 - numeral n) = pow2 0 / pow2 (numeral n)" by (rule pow2_diff)
  then show ?thesis by (simp add: pow2_numeral)
qed

lemma representableI:
  assumes "x = of_int m * pow2 e" "\<bar>m\<bar> < 2 ^ p" "2 - emax - int p \<le> e"
  shows "representable p emax x"
  using assms unfolding representable_def by blast

lemma ieee_add_exact:
  assumes "representable p emax (x + y)" "\<bar>x + y\<bar> \<le> max_finite p emax" "1 \<le> p"
  shows "ieee_add p emax (Finite x) (Finite y) = Finite (x + y)"
  using assms by (simp add: ieee_round_def round_nearest_id Let_def)

lemma ieee_add_overflow:
  assumes "representable p emax (x + y)" "max_finite p emax < x + y" "1 \<le> p"
  shows "ieee_add p emax (Finite x) (Finite y) = PInf"
proof -
  have "0 \<le> max_finite p emax" by (rule max_finite_nonneg)
  then show ?thesis using assms by (simp add: ieee_round_def round_nearest_id Let_def)
qed

lemma round_nearest_eval:
  assumes "pow2 e \<le> \<bar>x\<bar>" "\<bar>x\<bar> < pow2 (e + 1)" "1 - emax \<le> e"
  shows "round_nearest p emax x =
           of_int (round_even (x / pow2 (e - int p + 1))) * pow2 (e - int p + 1)"
proof -
  have "0 < pow2 e" by simp
  then have "x \<noteq> 0" using assms(1) by linarith
  moreover have "\<lfloor>log 2 \<bar>x\<bar>\<rfloor> = e" using assms(1,2) by (rule expo_unique)
  ultimately show ?thesis using assms(3) by (simp add: round_nearest_def ulp_def max_def)
qed

lemma upt_4: "[0..<4] = [0, 1, 2, 3::nat]"
  by (simp add: eval_nat_numeral upt_rec)

lemma upt_5: "[0..<5] = [0, 1, 2, 3, 4::nat]" "[4..<5] = [4::nat]"
  by (simp_all add: eval_nat_numeral upt_rec)

lemma sums_4:
  "sse_utils_sums F a 4 h =
     Some (fadd F (fadd F (fadd F (fzero F) (h (a + 3))) (fadd F (fzero F) (h (a + 2))))
                  (fadd F (fadd F (fzero F) (h (a + 1))) (fadd F (fzero F) (h a))), h)"
proof -
  have "(0::int) \<le> 4" "(4::int) \<le> INT_MAX" "(0::nat) < 4" "(4::nat) \<le> 8"
    by (simp_all add: INT_MAX_def)
  from sum_kernel_closed [OF this]
  have "sum_kernel 4 (collapse_ps (fadd F)) (fadd F) (fzero F) a 4 h =
      Some (foldl (fadd F) (collapse_ps (fadd F) (lane_sums 4 (fadd F) (fzero F) a (nat 4 div 4) h))
        (map (\<lambda>i. h (a + int i)) [4 * (nat 4 div 4)..<nat 4]), h)" .
  moreover have "nat 4 div 4 = (1::nat)" by simp
  ultimately show ?thesis
    by (simp add: sse_utils_sums_kernel lane_sums_def collapse_ps_def upt_4)
qed

lemma sums_5:
  "sse_utils_sums F a 5 h =
     Some (fadd F (fadd F (fadd F (fadd F (fzero F) (h (a + 3))) (fadd F (fzero F) (h (a + 2))))
                  (fadd F (fadd F (fzero F) (h (a + 1))) (fadd F (fzero F) (h a)))) (h (a + 4)), h)"
proof -
  have "(0::int) \<le> 5" "(5::int) \<le> INT_MAX" "(0::nat) < 4" "(4::nat) \<le> 8"
    by (simp_all add: INT_MAX_def)
  from sum_kernel_closed [OF this]
  have "sum_kernel 4 (collapse_ps (fadd F)) (fadd F) (fzero F) a 5 h =
      Some (foldl (fadd F) (collapse_ps (fadd F) (lane_sums 4 (fadd F) (fzero F) a (nat 5 div 4) h))
        (map (\<lambda>i. h (a + int i)) [4 * (nat 5 div 4)..<nat 5]), h)" .
  moreover have "nat 5 div 4 = (1::nat)" by simp
  ultimately show ?thesis
    by (simp add: sse_utils_sums_kernel lane_sums_def collapse_ps_def upt_4 upt_5)
qed

lemma naive_4:
  "naive_sum F a 4 h =
     fadd F (fadd F (fadd F (fadd F (fzero F) (h a)) (h (a + 1))) (h (a + 2))) (h (a + 3))"
  by (simp add: naive_sum_def upt_4)

lemma naive_5:
  "naive_sum F a 5 h =
     fadd F (fadd F (fadd F (fadd F (fadd F (fzero F) (h a)) (h (a + 1))) (h (a + 2))) (h (a + 3))) (h (a + 4))"
  by (simp add: naive_sum_def upt_5)

lemma pow2_1: "pow2 1 = 2"
  by (simp add: pow2_def)

lemma max_finite_binary32: "max_finite 24 127 = (2 ^ 24 - 1) * 2 ^ 104"
  by (simp add: max_finite_def pow2_numeral)

lemma max_finite_binary64: "max_finite 53 1023 = (2 ^ 53 - 1) * 2 ^ 971"
  by (simp add: max_finite_def pow2_numeral)

lemma ieee_add_rounds:
  assumes "pow2 e \<le> \<bar>x + y\<bar>" "\<bar>x + y\<bar> < pow2 (e + 1)" "1 - emax \<le> e"
    and "round_even ((x + y) / pow2 (e - int p + 1)) = n"
    and "of_int n * pow2 (e - int p + 1) = r" "r \<noteq> 0" "\<bar>r\<bar> \<le> max_finite p emax"
  shows "ieee_add p emax (Finite x) (Finite y) = Finite r"
proof -
  have "round_nearest p emax (x + y) = r"
    using round_nearest_eval [OF assms(1-3), of p] assms(4,5) by simp
  then show ?thesis using assms(6,7) by (simp add: ieee_round_def Let_def)
qed

lemma round_even_tie_down: "round_even (16777217 / 2) = 8388608"
  by (simp add: round_even_def Let_def)

lemma round_even_tie_up: "round_even (16777219 / 2) = 8388610"
  by (simp add: round_even_def Let_def)

lemma add32_zero_one: "ieee_add 24 127 (Finite 0) (Finite 1) = Finite 1"
proof -
  have "representable 24 127 (0 + 1)"
    by (rule representableI [of _ 1 0]) simp_all
  then have "ieee_add 24 127 (Finite 0) (Finite 1) = Finite (0 + 1)"
    by (rule ieee_add_exact) (simp_all add: max_finite_binary32)
  then show ?thesis by simp
qed

lemma add32_zero_ulp: "ieee_add 24 127 (Finite 0) (Finite (1 / 2 ^ 24)) = Finite (1 / 2 ^ 24)"
proof -
  have "representable 24 127 (0 + 1 / 2 ^ 24)"
    by (rule representableI [of _ 1 "- 24"]) (simp_all add: pow2_neg_numeral)
  then have "ieee_add 24 127 (Finite 0) (Finite (1 / 2 ^ 24)) = Finite (0 + 1 / 2 ^ 24)"
    by (rule ieee_add_exact) (simp_all add: max_finite_binary32)
  then show ?thesis by simp
qed

lemma add32_ulp_ulp:
  "ieee_add 24 127 (Finite (1 / 2 ^ 24)) (Finite (1 / 2 ^ 24)) = Finite (1 / 2 ^ 23)"
proof -
  have "representable 24 127 (1 / 2 ^ 24 + 1 / 2 ^ 24)"
    by (rule representableI [of _ 1 "- 23"]) (simp_all add: pow2_neg_numeral)
  then have "ieee_add 24 127 (Finite (1 / 2 ^ 24)) (Finite (1 / 2 ^ 24))
      = Finite (1 / 2 ^ 24 + 1 / 2 ^ 24)"
    by (rule ieee_add_exact) (simp_all add: max_finite_binary32)
  then show ?thesis by simp
qed

lemma add32_one_ulp: "ieee_add 24 127 (Finite 1) (Finite (1 / 2 ^ 24)) = Finite 1"
  by (rule ieee_add_rounds [of 0 _ _ _ _ 8388608])
    (simp_all add: pow2_1 pow2_neg_numeral max_finite_binary32 round_even_tie_down)

lemma add32_ulp_one: "ieee_add 24 127 (Finite (1 / 2 ^ 24)) (Finite 1) = Finite 1"
  by (rule ieee_add_rounds [of 0 _ _ _ _ 8388608])
    (simp_all add: pow2_1 pow2_neg_numeral max_finite_binary32 round_even_tie_down)

lemma add32_two_ulp_one:
  "ieee_add 24 127 (Finite (1 / 2 ^ 23)) (Finite 1) = Finite (1 + 1 / 2 ^ 23)"
proof -
  have "representable 24 127 (1 / 2 ^ 23 + 1)"
    by (rule representableI [of _ 8388609 "- 23"]) (simp_all add: pow2_neg_numeral)
  then have "ieee_add 24 127 (Finite (1 / 2 ^ 23)) (Finite 1) = Finite (1 / 2 ^ 23 + 1)"
    by (rule ieee_add_exact) (simp_all add: max_finite_binary32)
  then show ?thesis by simp
qed

lemma add32_tie_up:
  "ieee_add 24 127 (Finite (1 + 1 / 2 ^ 23)) (Finite (1 / 2 ^ 24)) = Finite (1 + 1 / 2 ^ 22)"
  by (rule ieee_add_rounds [of 0 _ _ _ _ 8388610])
    (simp_all add: pow2_1 pow2_neg_numeral max_finite_binary32 round_even_tie_up)

lemma sums_rounding_mem:
  "sse_utils_sums binary32 0 5 rounding_mem = Some (Finite (1 + 1 / 2 ^ 22), rounding_mem)"
proof -
  have m: "rounding_mem 0 = Finite 1" "rounding_mem (0 + 1) = Finite (1 / 2 ^ 24)"
    "rounding_mem (0 + 2) = Finite (1 / 2 ^ 24)" "rounding_mem (0 + 3) = Finite (1 / 2 ^ 24)"
    "rounding_mem (0 + 4) = Finite (1 / 2 ^ 24)"
    by (simp_all add: rounding_mem_def)
  have f: "fadd binary32 = ieee_add 24 127" "fzero binary32 = Finite 0"
    by (simp_all add: binary32_def ieee_fpu_def)
  show ?thesis
    by (simp only: sums_5 m f add32_zero_one add32_zero_ulp add32_ulp_ulp add32_ulp_one
        add32_two_ulp_one add32_tie_up)
qed

lemma naive_rounding_mem: "naive_sum binary32 0 5 rounding_mem = Finite 1"
proof -
  have m: "rounding_mem 0 = Finite 1" "rounding_mem (0 + 1) = Finite (1 / 2 ^ 24)"
    "rounding_mem (0 + 2) = Finite (1 / 2 ^ 24)" "rounding_mem (0 + 3) = Finite (1 / 2 ^ 24)"
    "rounding_mem (0 + 4) = Finite (1 / 2 ^ 24)"
    by (simp_all add: rounding_mem_def)
  have f: "fadd binary32 = ieee_add 24 127" "fzero binary32 = Finite 0"
    by (simp_all add: binary32_def ieee_fpu_def)
  show ?thesis
    by (simp only: naive_5 m f add32_zero_one add32_one_ulp)
qed

lemma ieee_add_0_left:
  assumes "representable p emax x" "\<bar>x\<bar> \<le> max_finite p emax" "1 \<le> p"
  shows "ieee_add p emax (Finite 0) (Finite x) = Finite x"
  using ieee_add_exact [of p emax 0 x] assms by simp

lemma ieee_add_0_right:
  assumes "representable p emax x" "\<bar>x\<bar> \<le> max_finite p emax" "1 \<le> p"
  shows "ieee_add p emax (Finite x) (Finite 0) = Finite x"
  using ieee_add_exact [of p emax x 0] assms by simp

lemma ieee_add_cancel: "1 \<le> p \<Longrightarrow> ieee_add p emax (Finite (- x)) (Finite x) = Finite 0"
  using ieee_add_exact [of p emax "- x" x] by (simp add: representable_0 max_finite_nonneg)

lemma add32_overflow:
  "ieee_add 24 127 (Finite (max_finite 24 127)) (Finite (max_finite 24 127)) = PInf"
proof -
  have "representable 24 127 (max_finite 24 127 + max_finite 24 127)"
    by (rule representableI [of _ "2 ^ 24 - 1" 105]) (simp_all add: max_finite_binary32 pow2_numeral)
  moreover have "max_finite 24 127 < max_finite 24 127 + max_finite 24 127"
    by (simp add: max_finite_binary32)
  ultimately show ?thesis by (rule ieee_add_overflow) simp
qed

lemma sums_overflow_mem: "sse_utils_sums binary32 0 4 overflow_mem = Some (PInf, overflow_mem)"
proof -
  let ?M = "max_finite 24 127"
  have m: "overflow_mem 0 = Finite (- ?M)" "overflow_mem (0 + 1) = Finite 0"
    "overflow_mem (0 + 2) = Finite ?M" "overflow_mem (0 + 3) = Finite ?M"
    by (simp_all add: overflow_mem_def)
  have f: "fadd binary32 = ieee_add 24 127" "fzero binary32 = Finite 0"
    by (simp_all add: binary32_def ieee_fpu_def)
  have r: "representable 24 127 ?M" "representable 24 127 (- ?M)" "representable 24 127 0"
    by (simp_all add: representable_max representable_minus representable_0)
  have a: "ieee_add 24 127 (Finite 0) (Finite ?M) = Finite ?M"
    "ieee_add 24 127 (Finite 0) (Finite (- ?M)) = Finite (- ?M)"
    "ieee_add 24 127 (Finite 0) (Finite 0) = Finite 0"
    by (rule ieee_add_0_left; simp add: r max_finite_nonneg)+
  have i: "ieee_add 24 127 PInf (Finite (- ?M)) = PInf" by simp
  show ?thesis
    by (simp only: sums_4 m f a add32_overflow i)
qed

lemma naive_overflow_mem: "naive_sum binary32 0 4 overflow_mem = Finite (max_finite 24 127)"
proof -
  let ?M = "max_finite 24 127"
  have m: "overflow_mem 0 = Finite (- ?M)" "overflow_mem (0 + 1) = Finite 0"
    "overflow_mem (0 + 2) = Finite ?M" "overflow_mem (0 + 3) = Finite ?M"
    by (simp_all add: overflow_mem_def)
  have f: "fadd binary32 = ieee_add 24 127" "fzero binary32 = Finite 0"
    by (simp_all add: binary32_def ieee_fpu_def)
  have r: "representable 24 127 ?M" "representable 24 127 (- ?M)"
    by (simp_all add: representable_max representable_minus)
  have a: "ieee_add 24 127 (Finite 0) (Finite ?M) = Finite ?M"
    "ieee_add 24 127 (Finite 0) (Finite (- ?M)) = Finite (- ?M)"
    "ieee_add 24 127 (Finite (- ?M)) (Finite 0) = Finite (- ?M)"
    "ieee_add 24 127 (Finite (- ?M)) (Finite ?M) = Finite 0"
    by (rule ieee_add_0_left ieee_add_0_right ieee_add_cancel; simp add: r max_finite_nonneg)+
  show ?thesis
    by (simp only: naive_4 m f a)
qed

lemma finite32_rounding_mem: "finite_float 24 127 (rounding_mem x)"
proof -
  have "representable 24 127 1"
    by (rule representableI [of _ 1 0]) simp_all
  moreover have "representable 24 127 (1 / 2 ^ 24)"
    by (rule representableI [of _ 1 "- 24"]) (simp_all add: pow2_neg_numeral)
  ultimately show ?thesis
    by (simp add: finite_float_def rounding_mem_def max_finite_binary32)
qed

lemma finite64_rounding_mem: "finite_float 53 1023 (rounding_mem x)"
proof -
  have "representable 53 1023 1"
    by (rule representableI [of _ 1 0]) simp_all
  moreover have "representable 53 1023 (1 / 2 ^ 24)"
    by (rule representableI [of _ 1 "- 24"]) (simp_all add: pow2_neg_numeral)
  ultimately show ?thesis
    by (simp add: finite_float_def rounding_mem_def max_finite_binary64)
qed

lemma sum_below_5: "(\<Sum>i<5::nat. f i) = f 0 + f 1 + f 2 + f 3 + (f 4 :: real)"
  by (simp add: eval_nat_numeral)

lemma sum_below_2: "(\<Sum>i<2::nat. f i) = f 0 + (f 1 :: real)"
  by (simp add: eval_nat_numeral)

lemma magnitude_rounding_mem:
  "magnitude_sum val 0 5 rounding_mem = 1 + 4 / 2 ^ 24"
  "magnitude_sum val 0 2 rounding_mem = 1 + 1 / 2 ^ 24"
  by (simp_all add: magnitude_sum_def rounding_mem_def sum_below_5 sum_below_2)

lemma upt_2: "[0..<2] = [0, 1::nat]"
  by (simp add: eval_nat_numeral upt_rec)

lemma sumd_2:
  "sse_utils_sumd F a 2 h =
     Some (fadd F (fadd F (fzero F) (h (a + 1))) (fadd F (fzero F) (h a)), h)"
proof -
  have "(0::int) \<le> 2" "(2::int) \<le> INT_MAX" "(0::nat) < 2" "(2::nat) \<le> 8"
    by (simp_all add: INT_MAX_def)
  from sum_kernel_closed [OF this]
  have "sum_kernel 2 (collapse_pd (fadd F)) (fadd F) (fzero F) a 2 h =
      Some (foldl (fadd F) (collapse_pd (fadd F) (lane_sums 2 (fadd F) (fzero F) a (nat 2 div 2) h))
        (map (\<lambda>i. h (a + int i)) [2 * (nat 2 div 2)..<nat 2]), h)" .
  moreover have "nat 2 div 2 = (1::nat)" by simp
  ultimately show ?thesis
    by (simp add: sse_utils_sumd_kernel lane_sums_def collapse_pd_def upt_2)
qed

lemma naive_2: "naive_sum F a 2 h = fadd F (fadd F (fzero F) (h a)) (h (a + 1))"
  by (simp add: naive_sum_def upt_2)

lemma add64_zero_one: "ieee_add 53 1023 (Finite 0) (Finite 1) = Finite 1"
  by (rule ieee_add_0_left, rule representableI [of _ 1 0]) (simp_all add: max_finite_binary64)

lemma add64_zero_ulp: "ieee_add 53 1023 (Finite 0) (Finite (1 / 2 ^ 24)) = Finite (1 / 2 ^ 24)"
  by (rule ieee_add_0_left, rule representableI [of _ 1 "- 24"])
    (simp_all add: max_finite_binary64 pow2_neg_numeral)

lemma add64_one_ulp: "ieee_add 53 1023 (Finite 1) (Finite (1 / 2 ^ 24)) = Finite (1 + 1 / 2 ^ 24)"
  by (rule ieee_add_exact, rule representableI [of _ 16777217 "- 24"])
    (simp_all add: max_finite_binary64 pow2_neg_numeral)

lemma add64_ulp_one: "ieee_add 53 1023 (Finite (1 / 2 ^ 24)) (Finite 1) = Finite (1 + 1 / 2 ^ 24)"
proof -
  have "ieee_add 53 1023 (Finite (1 / 2 ^ 24)) (Finite 1) = Finite (1 / 2 ^ 24 + 1)"
    by (rule ieee_add_exact, rule representableI [of _ 16777217 "- 24"])
      (simp_all add: max_finite_binary64 pow2_neg_numeral)
  then show ?thesis by (simp only: add.commute)
qed

lemma sumd_rounding_mem:
  "sse_utils_sumd binary64 0 2 rounding_mem = Some (Finite (1 + 1 / 2 ^ 24), rounding_mem)"
proof -
  have m: "rounding_mem 0 = Finite 1" "rounding_mem (0 + 1) = Finite (1 / 2 ^ 24)"
    by (simp_all add: rounding_mem_def)
  have f: "fadd binary64 = ieee_add 53 1023" "fzero binary64 = Finite 0"
    by (simp_all add: binary64_def ieee_fpu_def)
  show ?thesis
    by (simp only: sumd_2 m f add64_zero_one add64_zero_ulp add64_ulp_one)
qed

lemma naive64_rounding_mem:
  "naive_sum binary64 0 2 rounding_mem = Finite (1 + 1 / 2 ^ 24)"
proof -
  have m: "rounding_mem 0 = Finite 1" "rounding_mem (0 + 1) = Finite (1 / 2 ^ 24)"
    by (simp_all add: rounding_mem_def)
  have f: "fadd binary64 = ieee_add 53 1023" "fzero binary64 = Finite 0"
    by (simp_all add: binary64_def ieee_fpu_def)
  show ?thesis
    by (simp only: naive_2 m f add64_zero_one add64_one_ulp)
qed

section \<open>The claims of the specification\<close>

subsection \<open>Elementwise addition\<close>

text \<open>
  Claim C1 (as amended). For every length \<open>len \<ge> 0\<close> and buffers \<open>c\<close>, \<open>a\<close>, \<open>b\<close> of at
  least \<open>len\<close> elements, where each input starts at or after the output or ends before it
  (an input that is the output buffer itself, or that does not overlap it, does),
  \<open>sse_utils_vadds\<close> and \<open>sse_utils_vaddd\<close> return, and afterwards \<open>c[i]\<close> is the single
  floating-point addition of the original \<open>a[i]\<close> and \<open>b[i]\<close> for every \<open>i < len\<close>.
\<close>

theorem vector_add_elementwise:
  assumes "0 \<le> len" "len \<le> INT_MAX" "read_safe c a len" "read_safe c b len"
  shows "(\<exists>h'. sse_utils_vadds F c a b len h = Some h' \<and>
            (\<forall>i. 0 \<le> i \<and> i < len \<longrightarrow> h' (c + i) = fadd F (h (a + i)) (h (b + i)))) \<and>
         (\<exists>g'. sse_utils_vaddd D c a b len g = Some g' \<and>
            (\<forall>i. 0 \<le> i \<and> i < len \<longrightarrow> g' (c + i) = fadd D (g (a + i)) (g (b + i))))"
  by (simp add: elementwise_results assms ew_upto_at)

text \<open>
  The example of the specification, \<open>[1,2,3,4,5] + [5,4,3,2,1]\<close>, into a third buffer in
  single precision and over the first input in double precision.
\<close>

theorem vector_add_elementwise_witness:
  "(\<exists>h'. sse_utils_vadds exact_fpu 10 0 5 5 example_mem = Some h' \<and>
      map h' [10, 11, 12, 13, 14] = [6, 6, 6, 6, 6]) \<and>
   (\<exists>g'. sse_utils_vaddd exact_fpu 0 0 5 5 example_mem = Some g' \<and>
      map g' [0, 1, 2, 3, 4] = [6, 6, 6, 6, 6])"
proof -
  have len: "(0::int) \<le> 5" "5 \<le> INT_MAX" by (simp_all add: INT_MAX_def)
  have sep: "read_safe 10 0 5" "read_safe 10 5 5"
    and inplace: "read_safe 0 0 5" "read_safe 0 5 5"
    by (simp_all add: read_safe_def)
  from vector_add_elementwise [OF len sep, of exact_fpu example_mem exact_fpu example_mem]
  obtain h' where h': "sse_utils_vadds exact_fpu 10 0 5 5 example_mem = Some h'"
    "\<forall>i. 0 \<le> i \<and> i < 5 \<longrightarrow> h' (10 + i) = fadd exact_fpu (example_mem (0 + i)) (example_mem (5 + i))"
    by blast
  from vector_add_elementwise [OF len inplace, of exact_fpu example_mem exact_fpu example_mem]
  obtain g' where g': "sse_utils_vaddd exact_fpu 0 0 5 5 example_mem = Some g'"
    "\<forall>i. 0 \<le> i \<and> i < 5 \<longrightarrow> g' (0 + i) = fadd exact_fpu (example_mem (0 + i)) (example_mem (5 + i))"
    by blast
  have "h' (10 + i) = 6" "g' (0 + i) = 6" if "0 \<le> i" "i < 5" for i
    using h'(2) g'(2) that by (simp_all add: example_mem_def exact_fpu_def)
  from this [of 0] this [of 1] this [of 2] this [of 3] this [of 4] h'(1) g'(1)
  show ?thesis by simp
qed

text \<open>
  Without the condition the claim fails. With the output one element after the first
  input, \<open>c = a + 1\<close>, and \<open>len = 13\<close> in single precision, the chunk of 8 overwrites
  \<open>a[8]\<close> before the chunk of 4 reads it: \<open>c[8]\<close> becomes \<open>(a[7] + b[7]) + b[8] = 222\<close>,
  not \<open>a[8] + b[8] = 116\<close>. In double precision the same happens at \<open>len = 6\<close>, where
  \<open>c[4]\<close> becomes \<open>(a[3] + b[3]) + b[4] = 210\<close>, not \<open>a[4] + b[4] = 108\<close>.
\<close>

theorem vector_add_elementwise_counterexample:
  "result_at (sse_utils_vadds exact_fpu 1 0 100 13 index_mem) (1 + 8) = Some 222 \<and>
   fadd exact_fpu (index_mem (0 + 8)) (index_mem (100 + 8)) = 116 \<and>
   result_at (sse_utils_vaddd exact_fpu 1 0 100 6 index_mem) (1 + 4) = Some 210 \<and>
   fadd exact_fpu (index_mem (0 + 4)) (index_mem (100 + 4)) = 108"
  by (simp add: result_at_def vadds_13 vaddd_6 ew_chunk_apply index_mem_def exact_fpu_def)

subsection \<open>Elementwise multiplication\<close>

text \<open>
  Claim C2 (as amended). For every length \<open>len \<ge> 0\<close> and buffers \<open>c\<close>, \<open>a\<close>, \<open>b\<close> of at
  least \<open>len\<close> elements, where each input starts at or after the output or ends before it
  (an input that is the output buffer itself, or that does not overlap it, does),
  \<open>sse_utils_vmuls\<close> and \<open>sse_utils_vmuld\<close> return, and afterwards \<open>c[i]\<close> is the single
  floating-point multiplication of the original \<open>a[i]\<close> and \<open>b[i]\<close> for every \<open>i < len\<close>.
\<close>

theorem vector_multiply_elementwise:
  assumes "0 \<le> len" "len \<le> INT_MAX" "read_safe c a len" "read_safe c b len"
  shows "(\<exists>h'. sse_utils_vmuls F c a b len h = Some h' \<and>
            (\<forall>i. 0 \<le> i \<and> i < len \<longrightarrow> h' (c + i) = fmul F (h (a + i)) (h (b + i)))) \<and>
         (\<exists>g'. sse_utils_vmuld D c a b len g = Some g' \<and>
            (\<forall>i. 0 \<le> i \<and> i < len \<longrightarrow> g' (c + i) = fmul D (g (a + i)) (g (b + i))))"
  by (simp add: elementwise_results assms ew_upto_at)

text \<open>\<open>[1,2,3,4,5] * [5,4,3,2,1]\<close>, into a third buffer and over the first input.\<close>

theorem vector_multiply_elementwise_witness:
  "(\<exists>h'. sse_utils_vmuls exact_fpu 10 0 5 5 example_mem = Some h' \<and>
      map h' [10, 11, 12, 13, 14] = [5, 8, 9, 8, 5]) \<and>
   (\<exists>g'. sse_utils_vmuld exact_fpu 0 0 5 5 example_mem = Some g' \<and>
      map g' [0, 1, 2, 3, 4] = [5, 8, 9, 8, 5])"
proof -
  have len: "(0::int) \<le> 5" "5 \<le> INT_MAX" by (simp_all add: INT_MAX_def)
  have sep: "read_safe 10 0 5" "read_safe 10 5 5"
    and inplace: "read_safe 0 0 5" "read_safe 0 5 5"
    by (simp_all add: read_safe_def)
  from vector_multiply_elementwise [OF len sep, of exact_fpu example_mem exact_fpu example_mem]
  obtain h' where h': "sse_utils_vmuls exact_fpu 10 0 5 5 example_mem = Some h'"
    "\<forall>i. 0 \<le> i \<and> i < 5 \<longrightarrow> h' (10 + i) = fmul exact_fpu (example_mem (0 + i)) (example_mem (5 + i))"
    by blast
  from vector_multiply_elementwise [OF len inplace, of exact_fpu example_mem exact_fpu example_mem]
  obtain g' where g': "sse_utils_vmuld exact_fpu 0 0 5 5 example_mem = Some g'"
    "\<forall>i. 0 \<le> i \<and> i < 5 \<longrightarrow> g' (0 + i) = fmul exact_fpu (example_mem (0 + i)) (example_mem (5 + i))"
    by blast
  have "h' (10 + i) = (of_int i + 1) * (5 - of_int i)" "g' (0 + i) = (of_int i + 1) * (5 - of_int i)"
    if "0 \<le> i" "i < 5" for i
    using h'(2) g'(2) that by (simp_all add: example_mem_def exact_fpu_def)
  from this [of 0] this [of 1] this [of 2] this [of 3] this [of 4] h'(1) g'(1)
  show ?thesis by simp
qed

text \<open>
  Without the condition the claim fails, as for the addition: with \<open>c = a + 1\<close> and
  \<open>len = 13\<close> in single precision \<open>c[8]\<close> becomes \<open>(a[7] * b[7]) * b[8] = 80892\<close>, not
  \<open>a[8] * b[8] = 864\<close>; in double precision at \<open>len = 6\<close>, \<open>c[4]\<close> becomes
  \<open>(a[3] * b[3]) * b[4] = 32136\<close>, not \<open>a[4] * b[4] = 416\<close>.
\<close>

theorem vector_multiply_elementwise_counterexample:
  "result_at (sse_utils_vmuls exact_fpu 1 0 100 13 index_mem) (1 + 8) = Some 80892 \<and>
   fmul exact_fpu (index_mem (0 + 8)) (index_mem (100 + 8)) = 864 \<and>
   result_at (sse_utils_vmuld exact_fpu 1 0 100 6 index_mem) (1 + 4) = Some 32136 \<and>
   fmul exact_fpu (index_mem (0 + 4)) (index_mem (100 + 4)) = 416"
  by (simp add: result_at_def vmuls_13 vmuld_6 ew_chunk_apply index_mem_def exact_fpu_def)

subsection \<open>The sums and the naive accumulation\<close>

text \<open>
  Claim C3 (as amended). Floats are IEEE 754 binary32 and binary64 data, added with
  round to nearest, ties to even, overflowing to an infinity. Let \<open>len \<ge> 0\<close>, every
  \<open>a[i]\<close>, \<open>i < len\<close>, be finite, and the sum of the magnitudes \<open>|a[i]|\<close> be small enough
  that no partial sum overflows: \<open>(1 + (len + 3) 2\<^sup>-\<^sup>2\<^sup>4) \<Sigma>|a[i]| \<le> FLT_MAX\<close> for
  \<open>sse_utils_sums\<close>, \<open>(1 + (len + 1) 2\<^sup>-\<^sup>5\<^sup>3) \<Sigma>|a[i]| \<le> DBL_MAX\<close> for \<open>sse_utils_sumd\<close>.
  Then the kernel returns a finite value, leaves the memory unchanged, and differs from the
  naive left-to-right accumulation by at most \<open>(2 len + 3) 2\<^sup>-\<^sup>2\<^sup>4 \<Sigma>|a[i]|\<close> in single and
  \<open>(2 len + 1) 2\<^sup>-\<^sup>5\<^sup>3 \<Sigma>|a[i]|\<close> in double precision: a tolerance proportional to \<open>len\<close>
  times the unit roundoff, relative to the sum of the magnitudes. Over exact arithmetic the
  kernels equal the naive accumulation for every \<open>0 \<le> len \<le> INT_MAX\<close>.
\<close>

theorem sum_within_tolerance:
  assumes "0 \<le> len" "len \<le> INT_MAX"
    and "\<forall>i. 0 \<le> i \<and> i < len \<longrightarrow> finite_float 24 127 (h (a + i))"
    and "(1 + (of_int len + 3) / 2 ^ 24) * magnitude_sum val a len h \<le> max_finite 24 127"
    and "0 \<le> n" "n \<le> INT_MAX"
    and "\<forall>i. 0 \<le> i \<and> i < n \<longrightarrow> finite_float 53 1023 (g (b + i))"
    and "(1 + (of_int n + 1) / 2 ^ 53) * magnitude_sum val b n g \<le> max_finite 53 1023"
    and "0 \<le> m" "m \<le> INT_MAX"
  shows "(\<exists>v. sse_utils_sums binary32 a len h = Some (v, h) \<and> finite_float 24 127 v \<and>
            \<bar>val v - val (naive_sum binary32 a len h)\<bar>
              \<le> (2 * of_int len + 3) / 2 ^ 24 * magnitude_sum val a len h) \<and>
         (\<exists>w. sse_utils_sumd binary64 b n g = Some (w, g) \<and> finite_float 53 1023 w \<and>
            \<bar>val w - val (naive_sum binary64 b n g)\<bar>
              \<le> (2 * of_int n + 1) / 2 ^ 53 * magnitude_sum val b n g) \<and>
         sse_utils_sums exact_fpu c m r = Some (naive_sum exact_fpu c m r, r) \<and>
         sse_utils_sumd exact_fpu c m r = Some (naive_sum exact_fpu c m r, r)"
  using assms by (intro conjI sums_binary32 sumd_binary64 sums_exact sumd_exact)

text \<open>
  Five single-precision numbers, \<open>[1, 2\<^sup>-\<^sup>2\<^sup>4, 2\<^sup>-\<^sup>2\<^sup>4, 2\<^sup>-\<^sup>2\<^sup>4, 2\<^sup>-\<^sup>2\<^sup>4]\<close>: the naive accumulation
  rounds every \<open>1 + 2\<^sup>-\<^sup>2\<^sup>4\<close> back to 1, the kernel returns \<open>1 + 2\<^sup>-\<^sup>2\<^sup>2\<close>, and the
  difference \<open>2\<^sup>-\<^sup>2\<^sup>2\<close> is within the tolerance. The first two of them, in double
  precision, are summed without rounding.
\<close>

theorem sum_within_tolerance_witness:
  "sse_utils_sums binary32 0 5 rounding_mem = Some (Finite (1 + 1 / 2 ^ 22), rounding_mem) \<and>
   naive_sum binary32 0 5 rounding_mem = Finite 1 \<and>
   \<bar>val (Finite (1 + 1 / 2 ^ 22)) - val (naive_sum binary32 0 5 rounding_mem)\<bar>
     \<le> (2 * 5 + 3) / 2 ^ 24 * magnitude_sum val 0 5 rounding_mem \<and>
   sse_utils_sumd binary64 0 2 rounding_mem = Some (Finite (1 + 1 / 2 ^ 24), rounding_mem) \<and>
   \<bar>val (Finite (1 + 1 / 2 ^ 24)) - val (naive_sum binary64 0 2 rounding_mem)\<bar>
     \<le> (2 * 2 + 1) / 2 ^ 53 * magnitude_sum val 0 2 rounding_mem \<and>
   sse_utils_sums exact_fpu 0 5 example_mem = Some (naive_sum exact_fpu 0 5 example_mem, example_mem) \<and>
   sse_utils_sumd exact_fpu 0 5 example_mem = Some (naive_sum exact_fpu 0 5 example_mem, example_mem)"
proof -
  have "(1 + (of_int 5 + 3) / 2 ^ 24) * magnitude_sum val 0 5 rounding_mem \<le> max_finite 24 127"
    by (simp add: magnitude_rounding_mem max_finite_binary32)
  moreover
  have "(1 + (of_int 2 + 1) / 2 ^ 53) * magnitude_sum val 0 2 rounding_mem \<le> max_finite 53 1023"
    by (simp add: magnitude_rounding_mem max_finite_binary64)
  ultimately show ?thesis
    using sum_within_tolerance [of 5 rounding_mem 0 2 rounding_mem 0 5 0 example_mem]
    by (simp add: INT_MAX_def finite32_rounding_mem finite64_rounding_mem sums_rounding_mem
        sumd_rounding_mem naive_rounding_mem)
qed

text \<open>
  The claim as the specification has it fails when a partial sum of the kernel overflows:
  on the four finite numbers \<open>[-FLT_MAX, 0, FLT_MAX, FLT_MAX]\<close> the kernel adds the lanes
  2 and 3 first and returns \<open>+\<infinity>\<close>, while the naive accumulation returns \<open>FLT_MAX\<close>.
\<close>

theorem sum_within_tolerance_counterexample:
  "sse_utils_sums binary32 0 4 overflow_mem = Some (PInf, overflow_mem) \<and>
   naive_sum binary32 0 4 overflow_mem = Finite (max_finite 24 127)"
  by (simp only: sums_overflow_mem naive_overflow_mem)

subsection \<open>Length zero\<close>

text \<open>
  Claim C4. For \<open>len = 0\<close> the sum kernels return exactly zero (the additive identity:
  \<open>0.0 + 0.0\<close> is \<open>0.0\<close>), and the elementwise kernels leave the memory as it is.
\<close>

theorem length_zero:
  assumes "fadd F (fzero F) (fzero F) = fzero F"
  shows "sse_utils_sums F a 0 h = Some (fzero F, h) \<and>
         sse_utils_sumd F a 0 h = Some (fzero F, h) \<and>
         sse_utils_vadds F c a b 0 h = Some h \<and>
         sse_utils_vaddd F c a b 0 h = Some h \<and>
         sse_utils_vmuls F c a b 0 h = Some h \<and>
         sse_utils_vmuld F c a b 0 h = Some h"
proof -
  have z: "(0::int) \<le> 0" "(0::int) \<le> INT_MAX" by (simp_all add: INT_MAX_def)
  have rs: "read_safe c a 0" "read_safe c b 0" by (auto simp: read_safe_def)
  have "sse_utils_sums F a 0 h = Some (fzero F, h)"
    unfolding sse_utils_sums_kernel using assms
    by (simp add: sum_kernel_closed [OF z] lane_sums_0 collapse_ps_zero)
  moreover have "sse_utils_sumd F a 0 h = Some (fzero F, h)"
    unfolding sse_utils_sumd_kernel using assms
    by (simp add: sum_kernel_closed [OF z] lane_sums_0 collapse_pd_zero)
  ultimately show ?thesis
    by (simp add: elementwise_results z rs ew_upto_0)
qed

theorem length_zero_witness:
  "fadd exact_fpu (fzero exact_fpu) (fzero exact_fpu) = fzero exact_fpu \<and>
   sse_utils_sums exact_fpu 0 0 example_mem = Some (0, example_mem) \<and>
   sse_utils_sumd exact_fpu 0 0 example_mem = Some (0, example_mem) \<and>
   sse_utils_vadds exact_fpu 10 0 5 0 example_mem = Some example_mem \<and>
   sse_utils_vaddd exact_fpu 10 0 5 0 example_mem = Some example_mem \<and>
   sse_utils_vmuls exact_fpu 10 0 5 0 example_mem = Some example_mem \<and>
   sse_utils_vmuld exact_fpu 10 0 5 0 example_mem = Some example_mem"
  using length_zero [of exact_fpu 0 example_mem 10 5]
  by (simp add: exact_fpu_def)

subsection \<open>The three tiers\<close>

text \<open>
  Claim C5. In every elementwise kernel call with \<open>len \<ge> 0\<close> the three tiers run one after
  the other: the wide tier processes full chunks of 8 (32-bit) or 4 (64-bit) elements while
  that many remain, then the narrow tier full chunks of 4 or 2 while that many remain,
  then the scalar tier the remaining indices one by one; the indices processed, in this
  order, are exactly \<open>0, \<dots>, len - 1\<close>, each once.
\<close>

theorem tiers_sequential_partition:
  assumes "0 \<le> len" "len \<le> INT_MAX"
  shows "sse_utils_vadds F c a b len h =
           Some (fold (ew_chunk (fadd F) c a b 1) (scalar_starts 8 4 len)
                (fold (ew_chunk (fadd F) c a b 4) (narrow_starts 8 4 len)
                (fold (ew_chunk (fadd F) c a b 8) (wide_starts 8 len) h))) \<and>
         sse_utils_vmuls F c a b len h =
           Some (fold (ew_chunk (fmul F) c a b 1) (scalar_starts 8 4 len)
                (fold (ew_chunk (fmul F) c a b 4) (narrow_starts 8 4 len)
                (fold (ew_chunk (fmul F) c a b 8) (wide_starts 8 len) h))) \<and>
         sse_utils_vaddd F c a b len h =
           Some (fold (ew_chunk (fadd F) c a b 1) (scalar_starts 4 2 len)
                (fold (ew_chunk (fadd F) c a b 2) (narrow_starts 4 2 len)
                (fold (ew_chunk (fadd F) c a b 4) (wide_starts 4 len) h))) \<and>
         sse_utils_vmuld F c a b len h =
           Some (fold (ew_chunk (fmul F) c a b 1) (scalar_starts 4 2 len)
                (fold (ew_chunk (fmul F) c a b 2) (narrow_starts 4 2 len)
                (fold (ew_chunk (fmul F) c a b 4) (wide_starts 4 len) h))) \<and>
         tiers_partition 8 4 len \<and> tiers_partition 4 2 len"
proof -
  have "tiers_partition 8 4 len" "tiers_partition 4 2 len"
    using assms(1) by (simp_all add: tiers_partition_holds)
  then show ?thesis
    unfolding sse_utils_vadds_tiers sse_utils_vmuls_tiers sse_utils_vaddd_tiers sse_utils_vmuld_tiers
    using assms by (simp add: three_tier_starts)
qed

text \<open>Length 13 in single precision: one chunk of 8, one chunk of 4, one scalar step.\<close>

theorem tiers_sequential_partition_witness:
  "sse_utils_vadds exact_fpu 20 0 5 13 example_mem =
     Some (ew_chunk (+) 20 0 5 1 12 (ew_chunk (+) 20 0 5 4 8 (ew_chunk (+) 20 0 5 8 0 example_mem))) \<and>
   wide_starts 8 13 = [0] \<and> narrow_starts 8 4 13 = [8] \<and> scalar_starts 8 4 13 = [12] \<and>
   chunk_indices 8 (wide_starts 8 13) @ chunk_indices 4 (narrow_starts 8 4 13)
     @ chunk_indices 1 (scalar_starts 8 4 13) = [0..12]"
  using tiers_sequential_partition [of 13 exact_fpu 20 0 5 example_mem]
  by (simp add: INT_MAX_def wide_starts_def narrow_starts_def scalar_starts_def chunk_starts_def
      wide_end_def narrow_end_def exact_fpu_def tiers_partition_def)

subsection \<open>The sum algorithm\<close>

text \<open>
  Claim C6. The sum kernels use only the narrow registers: for every \<open>len \<ge> 0\<close> the result
  of \<open>sse_utils_sums\<close> is that of the specified algorithm with chunks of 4 and two pairwise
  folds, the result of \<open>sse_utils_sumd\<close> that with chunks of 2 and one pairwise fold; fewer
  than 4 (or 2) elements are left for the final scalar additions.
\<close>

theorem sum_kernels_follow_the_algorithm:
  assumes "0 \<le> len" "len \<le> INT_MAX"
  shows "sse_utils_sums F a len h = Some (spec_sum 4 2 F a len h, h) \<and>
         sse_utils_sumd F a len h = Some (spec_sum 2 1 F a len h, h) \<and>
         length (spec_rest 4 a len h) < 4 \<and> length (spec_rest 2 a len h) < 2"
proof -
  have "sse_utils_sums F a len h = Some (spec_sum 4 2 F a len h, h)"
    unfolding sse_utils_sums_kernel spec_sum_lanes
    by (simp add: sum_kernel_closed [OF assms] pairwise_fold_twice spec_rest_def)
  moreover have "sse_utils_sumd F a len h = Some (spec_sum 2 1 F a len h, h)"
    unfolding sse_utils_sumd_kernel spec_sum_lanes
    by (simp add: sum_kernel_closed [OF assms] pairwise_fold_once spec_rest_def)
  ultimately show ?thesis by (simp add: length_spec_rest)
qed

text \<open>The sum of \<open>[1,2,3,4,5]\<close> is 15, in both precisions.\<close>

theorem sum_kernels_follow_the_algorithm_witness:
  "sse_utils_sums exact_fpu 0 5 example_mem = Some (15, example_mem) \<and>
   sse_utils_sumd exact_fpu 0 5 example_mem = Some (15, example_mem)"
proof -
  have "spec_sum 4 2 exact_fpu 0 5 example_mem = 15" "spec_sum 2 1 exact_fpu 0 5 example_mem = 15"
    by code_simp+
  then show ?thesis
    using sum_kernels_follow_the_algorithm [of 5 exact_fpu 0 example_mem]
    by (simp add: INT_MAX_def)
qed

subsection \<open>Output over an input\<close>

text \<open>
  Claim C7 (as amended). For every \<open>len \<ge> 0\<close> and buffers \<open>a\<close>, \<open>b\<close> where the second
  input starts at or after the first or ends before it, writing the result over the first
  input gives at every index \<open>i < len\<close> the value that writing it into a distinct buffer
  \<open>d\<close>, one that overlaps neither input, gives, for each of the four elementwise kernels.
\<close>

theorem aliased_output:
  assumes "0 \<le> len" "len \<le> INT_MAX" "read_safe a b len"
    and "no_overlap d a len" "no_overlap d b len"
  shows "\<forall>K \<in> {sse_utils_vadds, sse_utils_vaddd, sse_utils_vmuls, sse_utils_vmuld}.
           \<exists>h1 h2. K F a a b len h = Some h1 \<and> K F d a b len h = Some h2 \<and>
             (\<forall>i. 0 \<le> i \<and> i < len \<longrightarrow> h1 (a + i) = h2 (d + i))"
proof -
  have r2: "read_safe d a len" "read_safe d b len"
    using assms by (simp_all add: no_overlap_read_safe)
  show ?thesis
    by (simp add: elementwise_results assms(1-3) read_safe_self r2 ew_upto_at)
qed

theorem aliased_output_witness:
  "(\<exists>h1 h2. sse_utils_vadds exact_fpu 0 0 5 5 example_mem = Some h1 \<and>
      sse_utils_vadds exact_fpu 10 0 5 5 example_mem = Some h2 \<and>
      map h1 [0, 1, 2, 3, 4] = map h2 [10, 11, 12, 13, 14]) \<and>
   (\<exists>h1 h2. sse_utils_vmuls exact_fpu 0 0 5 5 example_mem = Some h1 \<and>
      sse_utils_vmuls exact_fpu 10 0 5 5 example_mem = Some h2 \<and>
      map h1 [0, 1, 2, 3, 4] = map h2 [10, 11, 12, 13, 14])"
proof -
  have hyps: "(0::int) \<le> 5" "5 \<le> INT_MAX" "read_safe 0 5 5" "no_overlap 10 0 5" "no_overlap 10 5 5"
    by (simp_all add: INT_MAX_def read_safe_def no_overlap_def)
  note all = aliased_output [OF hyps, of exact_fpu example_mem]
  from all obtain h1 h2 where a: "sse_utils_vadds exact_fpu 0 0 5 5 example_mem = Some h1"
    "sse_utils_vadds exact_fpu 10 0 5 5 example_mem = Some h2"
    "\<forall>i. 0 \<le> i \<and> i < 5 \<longrightarrow> h1 (0 + i) = h2 (10 + i)"
    by auto
  from all obtain g1 g2 where m: "sse_utils_vmuls exact_fpu 0 0 5 5 example_mem = Some g1"
    "sse_utils_vmuls exact_fpu 10 0 5 5 example_mem = Some g2"
    "\<forall>i. 0 \<le> i \<and> i < 5 \<longrightarrow> g1 (0 + i) = g2 (10 + i)"
    by auto
  have "h1 (0 + i) = h2 (10 + i)" "g1 (0 + i) = g2 (10 + i)" if "0 \<le> i" "i < 5" for i
    using a(3) m(3) that by simp_all
  from this [of 0] this [of 1] this [of 2] this [of 3] this [of 4] a(1,2) m(1,2)
  show ?thesis by simp
qed

text \<open>
  Without the condition the claim fails. With the second input one element before the
  first, \<open>b = a - 1\<close>, and \<open>len = 2\<close>, the in-place call overwrites \<open>a[0] = b[1]\<close> before it
  reads \<open>b[1]\<close>: on \<open>a = [2, 3]\<close>, \<open>b = [1, 2]\<close> it leaves \<open>[3, 6]\<close> in \<open>a\<close>, where the
  call into a separate buffer gives \<open>[3, 5]\<close>.
\<close>

theorem aliased_output_counterexample:
  "result_at (sse_utils_vadds exact_fpu 2 2 1 2 index_mem) (2 + 1) = Some 6 \<and>
   result_at (sse_utils_vadds exact_fpu 10 2 1 2 index_mem) (10 + 1) = Some 5"
  by (simp add: result_at_def vadds_2 ew_chunk_apply index_mem_def exact_fpu_def)

subsection \<open>What a kernel touches\<close>

text \<open>
  Claim C8. Every kernel reads and writes only the first \<open>len\<close> positions of its
  buffers. An elementwise kernel changes memory only at \<open>c[0..len)\<close>, and what it writes
  there depends only on \<open>a[0..len)\<close> and \<open>b[0..len)\<close>; a sum kernel leaves all memory
  unchanged, and its result depends only on \<open>a[0..len)\<close>.
\<close>

theorem kernels_touch_only_the_buffers:
  assumes "0 \<le> len" "len \<le> INT_MAX"
  shows "(\<forall>K \<in> {sse_utils_vadds, sse_utils_vaddd, sse_utils_vmuls, sse_utils_vmuld}.
            \<exists>h'. K F c a b len h = Some h' \<and> writes_only c len h h' \<and>
              (\<forall>g. agree_on a len h g \<and> agree_on b len h g \<longrightarrow>
                 (\<exists>g'. K F c a b len g = Some g' \<and> agree_on c len h' g'))) \<and>
         (\<forall>S \<in> {sse_utils_sums, sse_utils_sumd}.
            \<exists>v. S F a len h = Some (v, h) \<and>
              (\<forall>g. agree_on a len h g \<longrightarrow> S F a len g = Some (v, g)))"
proof -
  have ew: "\<exists>h'. three_tier (int W1) (int W2) (ew_chunk f c a b W1) (ew_chunk f c a b W2) (ew_chunk f c a b 1) len h
           = Some h' \<and> writes_only c len h h' \<and>
              (\<forall>g. agree_on a len h g \<and> agree_on b len h g \<longrightarrow>
                 (\<exists>g'. three_tier (int W1) (int W2) (ew_chunk f c a b W1) (ew_chunk f c a b W2)
                    (ew_chunk f c a b 1) len g = Some g' \<and> agree_on c len h' g'))"
    if "0 < W2" "W2 \<le> W1" "W1 \<le> 8" for W1 W2 f
  proof -
    from three_tier_writes_only [OF assms that]
    obtain h' where h': "three_tier (int W1) (int W2) (ew_chunk f c a b W1) (ew_chunk f c a b W2)
        (ew_chunk f c a b 1) len h = Some h'" "writes_only c len h h'"
      by blast
    have "\<exists>g'. three_tier (int W1) (int W2) (ew_chunk f c a b W1) (ew_chunk f c a b W2)
                    (ew_chunk f c a b 1) len g = Some g' \<and> agree_on c len h' g'"
      if "agree_on a len h g" "agree_on b len h g" for g
      using three_tier_agree [OF assms \<open>0 < W2\<close> \<open>W2 \<le> W1\<close> \<open>W1 \<le> 8\<close> that, of f c] h'(1) by auto
    then show ?thesis using h' by blast
  qed
  have sm: "\<exists>v. sum_kernel W collapse f z a len h = Some (v, h) \<and>
              (\<forall>g. agree_on a len h g \<longrightarrow> sum_kernel W collapse f z a len g = Some (v, g))"
    if "0 < W" "W \<le> 8" for W collapse f z
  proof -
    have "sum_kernel W collapse f z a len h = Some (fst (the (sum_kernel W collapse f z a len h)), h)"
      by (simp add: sum_kernel_closed [OF assms that])
    moreover have "sum_kernel W collapse f z a len g = Some (fst (the (sum_kernel W collapse f z a len h)), g)"
      if "agree_on a len h g" for g
      using sum_kernel_agree [OF assms \<open>0 < W\<close> \<open>W \<le> 8\<close> that, of collapse f z] by auto
    ultimately show ?thesis by blast
  qed
  have "\<forall>K \<in> {sse_utils_vadds, sse_utils_vaddd, sse_utils_vmuls, sse_utils_vmuld}.
            \<exists>h'. K F c a b len h = Some h' \<and> writes_only c len h h' \<and>
              (\<forall>g. agree_on a len h g \<and> agree_on b len h g \<longrightarrow>
                 (\<exists>g'. K F c a b len g = Some g' \<and> agree_on c len h' g'))"
    using ew [of 4 8 "fadd F"] ew [of 2 4 "fadd F"] ew [of 4 8 "fmul F"] ew [of 2 4 "fmul F"]
    by (simp add: sse_utils_vadds_tiers sse_utils_vaddd_tiers sse_utils_vmuls_tiers sse_utils_vmuld_tiers)
  moreover have "\<forall>S \<in> {sse_utils_sums, sse_utils_sumd}.
            \<exists>v. S F a len h = Some (v, h) \<and>
              (\<forall>g. agree_on a len h g \<longrightarrow> S F a len g = Some (v, g))"
    using sm [of 4 "collapse_ps (fadd F)" "fadd F" "fzero F"] sm [of 2 "collapse_pd (fadd F)" "fadd F" "fzero F"]
    by (simp add: sse_utils_sums_kernel sse_utils_sumd_kernel)
  ultimately show ?thesis by (rule conjI)
qed

theorem kernels_touch_only_the_buffers_witness:
  "(\<exists>h'. sse_utils_vadds exact_fpu 10 0 5 5 example_mem = Some h' \<and>
      map h' [0, 4, 5, 9, 15, 16] = map example_mem [0, 4, 5, 9, 15, 16]) \<and>
   (\<exists>v. sse_utils_sums exact_fpu 0 5 example_mem = Some (v, example_mem))"
proof -
  have hyps: "(0::int) \<le> 5" "5 \<le> INT_MAX" by (simp_all add: INT_MAX_def)
  note all = kernels_touch_only_the_buffers [OF hyps, of exact_fpu 10 0 5 example_mem]
  from all obtain h' where h': "sse_utils_vadds exact_fpu 10 0 5 5 example_mem = Some h'"
    "writes_only 10 5 example_mem h'"
    by auto
  from all obtain v where v: "sse_utils_sums exact_fpu 0 5 example_mem = Some (v, example_mem)"
    by auto
  have "h' x = example_mem x" if "\<not> (10 \<le> x \<and> x < 10 + 5)" for x
    using h'(2) that unfolding writes_only_def by blast
  from this [of 0] this [of 4] this [of 5] this [of 9] this [of 15] this [of 16] h'(1) v
  show ?thesis by simp
qed

subsection \<open>The aligned allocator\<close>



subsection \<open>Negative lengths\<close>

text \<open>
  Claim C10 (as amended). For a negative length the first statement of every kernel,
  \<open>vlen = len - W\<close>, overflows when \<open>len < INT_MIN + W\<close> (\<open>W\<close> is 8 for the single-precision
  elementwise kernels, 4 for the double-precision ones and for \<open>sse_utils_sums\<close>, 2 for
  \<open>sse_utils_sumd\<close>), and the kernel then has no defined result. For every other negative
  length no loop body runs: an elementwise kernel leaves the memory as it is and a sum
  kernel returns exactly zero.
\<close>

theorem negative_length:
  assumes "len < 0" "fadd F (fzero F) (fzero F) = fzero F"
  shows "(\<forall>K \<in> {sse_utils_vadds, sse_utils_vmuls}.
            K F c a b len h = (if INT_MIN + 8 \<le> len then Some h else None)) \<and>
         (\<forall>K \<in> {sse_utils_vaddd, sse_utils_vmuld}.
            K F c a b len h = (if INT_MIN + 4 \<le> len then Some h else None)) \<and>
         sse_utils_sums F a len h = (if INT_MIN + 4 \<le> len then Some (fzero F, h) else None) \<and>
         sse_utils_sumd F a len h = (if INT_MIN + 2 \<le> len then Some (fzero F, h) else None)"
proof -
  have ew: "three_tier W1 W2 wide narrow scalar len h = (if INT_MIN + W1 \<le> len then Some h else None)"
    if "0 < W2" "W2 \<le> W1" "W1 \<le> 8" for W1 W2 and wide narrow scalar :: "int \<Rightarrow> 'a heap \<Rightarrow> 'a heap"
    using three_tier_negative [OF assms(1) _ that] three_tier_overflow [of len W1] by auto
  have sm: "sum_kernel W collapse f z a len h =
      (if INT_MIN + int W \<le> len then Some (collapse (replicate W z), h) else None)"
    if "0 < W" "W \<le> 8" for W collapse and f :: "'a \<Rightarrow> 'a \<Rightarrow> 'a" and z
    using sum_kernel_negative [OF assms(1) _ that] sum_kernel_overflow [of len W] by auto
  show ?thesis
    unfolding sse_utils_sums_kernel sse_utils_sumd_kernel
    using assms(2)
    by (simp add: sse_utils_vadds_tiers sse_utils_vmuls_tiers sse_utils_vaddd_tiers sse_utils_vmuld_tiers
        ew sm collapse_ps_zero collapse_pd_zero)
qed

theorem negative_length_witness:
  "sse_utils_vadds exact_fpu 10 0 5 (- 3) example_mem = Some example_mem \<and>
   sse_utils_vmuls exact_fpu 10 0 5 (- 3) example_mem = Some example_mem \<and>
   sse_utils_vaddd exact_fpu 10 0 5 (- 3) example_mem = Some example_mem \<and>
   sse_utils_vmuld exact_fpu 10 0 5 (- 3) example_mem = Some example_mem \<and>
   sse_utils_sums exact_fpu 0 (- 3) example_mem = Some (0, example_mem) \<and>
   sse_utils_sumd exact_fpu 0 (- 3) example_mem = Some (0, example_mem)"
  using negative_length [of "- 3" exact_fpu 10 0 5 example_mem]
  by (simp add: INT_MIN_def exact_fpu_def)

text \<open>
  At the smallest \<open>int\<close> the subtractions \<open>len - 8\<close> and \<open>len - 4\<close> overflow: these calls
  have no defined result.
\<close>

theorem negative_length_counterexample:
  "sse_utils_vadds exact_fpu 10 0 5 (- 2147483648) example_mem = None \<and>
   sse_utils_sums exact_fpu 0 (- 2147483648) example_mem = None"
  by (simp add: sse_utils_vadds_def sse_utils_sums_def int_sub_def INT_MIN_def)

end
